theory Spec2Isabelle
  imports Main "HOL-Library.Sublist" "HOL-Library.AList"
begin

section \<open>Python text primitives\<close>

text \<open>
  The script \<^verbatim>\<open>scripts/main_automation.py\<close> works on Python \<^verbatim>\<open>str\<close> values. A text is
  modelled as a \<^typ>\<open>string\<close> whose characters are the code points U+0000 to U+00FF, one
  \<^typ>\<open>char\<close> per code point. The three methods of \<^verbatim>\<open>str\<close> that the extractor uses are
  \<^verbatim>\<open>strip()\<close>, \<^verbatim>\<open>split(sep)\<close> and the operator \<^verbatim>\<open>sub in s\<close>; \<^verbatim>\<open>lower()\<close> is used on
  the value of a YAML key.
\<close>

text \<open>
  \<^verbatim>\<open>str.isspace\<close> for one code point below 256: TAB, LF, VT, FF, CR, the four
  separators FS, GS, RS, US, the space, NEL (U+0085) and the no-break space (U+00A0).
\<close>

definition isspace :: "char \<Rightarrow> bool" where
  "isspace c =
     (let n = (of_char c :: nat)
      in (9 \<le> n \<and> n \<le> 13) \<or> (28 \<le> n \<and> n \<le> 32) \<or> n = 133 \<or> n = 160)"

text \<open>\<^verbatim>\<open>s.strip()\<close>: the white space at both ends is removed.\<close>

definition str_strip :: "string \<Rightarrow> string" where
  "str_strip s = rev (dropWhile isspace (rev (dropWhile isspace s)))"

text \<open>\<^verbatim>\<open>sub in s\<close> on two texts: \<open>sub\<close> occurs in \<open>s\<close> at some position.\<close>

fun str_contains :: "string \<Rightarrow> string \<Rightarrow> bool" where
  "str_contains sub [] = (sub = [])"
| "str_contains sub (c # cs) = (prefix sub (c # cs) \<or> str_contains sub cs)"

text \<open>
  \<^verbatim>\<open>s.split(sep)\<close> for a separator that is not empty: the occurrences of \<open>sep\<close> are found
  from the left and do not overlap; the result always has at least one element.
\<close>

fun str_split :: "string \<Rightarrow> string \<Rightarrow> string list" where
  "str_split sep [] = [[]]"
| "str_split sep (c # cs) =
     (if prefix sep (c # cs) then [] # str_split sep (drop (length sep - 1) cs)
      else (case str_split sep cs of
              [] \<Rightarrow> [[c]]
            | f # fs \<Rightarrow> (c # f) # fs))"

text \<open>
  \<^verbatim>\<open>str.lower()\<close> on code points below 256: the letters A to Z and the capital letters
  of the Latin-1 supplement (U+00C0 to U+00DE, without the multiplication sign U+00D7)
  move up by 32. \<^verbatim>\<open>bytes.lower()\<close> only changes A to Z.
\<close>

definition lower_char :: "char \<Rightarrow> char" where
  "lower_char c =
     (let n = (of_char c :: nat)
      in if (65 \<le> n \<and> n \<le> 90) \<or> (192 \<le> n \<and> n \<le> 222 \<and> n \<noteq> 215)
         then char_of (n + 32) else c)"

definition lower_byte :: "char \<Rightarrow> char" where
  "lower_byte c =
     (let n = (of_char c :: nat)
      in if 65 \<le> n \<and> n \<le> 90 then char_of (n + 32) else c)"

definition str_lower :: "string \<Rightarrow> string" where
  "str_lower s = map lower_char s"

definition bytes_lower :: "string \<Rightarrow> string" where
  "bytes_lower s = map lower_byte s"

section \<open>Exceptions\<close>

text \<open>
  An exception is a value: a computation that may raise returns \<open>exn + 'a\<close>, with
  \<open>Inl\<close> for the exception raised.
\<close>

datatype exn =
  YAMLError
| TypeError
| AttributeError
| KeyError
| IndexError
| APIError string
| OSError string
| ValueError string
| UnicodeEncodeError string

text \<open>\<^verbatim>\<open>xs[0]\<close> raises IndexError on the empty list.\<close>

definition index0 :: "'a list \<Rightarrow> exn + 'a" where
  "index0 xs = (case xs of [] \<Rightarrow> Inl IndexError | x # _ \<Rightarrow> Inr x)"

section \<open>The regular expressions of the extractor\<close>

text \<open>
  The patterns of \<^verbatim>\<open>_extract_terraform_code\<close> are built from literal text, the
  alternative \<^verbatim>\<open>a|b\<close>, the greedy option \<^verbatim>\<open>(?:...)?\<close>, one capturing group and the lazy
  repetition \<^verbatim>\<open>.*?\<close>, which under \<^verbatim>\<open>re.DOTALL\<close> takes any character, the newline too.
\<close>

datatype regex =
  Lit string
| AnyLazy
| Seq regex regex
| Alt regex regex
| Opt regex
| Grp regex

text \<open>
  \<open>scan f s\<close> tries \<open>f\<close> on \<open>s\<close>, then on \<open>s\<close> without its first character, and
  so on up to the empty rest; the first success wins.
\<close>

primrec scan :: "(string \<Rightarrow> 'a option) \<Rightarrow> string \<Rightarrow> 'a option" where
  "scan f [] = f []"
| "scan f (c # cs) = (case f (c # cs) of Some r \<Rightarrow> Some r | None \<Rightarrow> scan f cs)"

text \<open>
  The matcher follows the backtracking order of \<^verbatim>\<open>re\<close>. \<open>rmatch r s c k\<close> matches \<open>r\<close>
  at the start of \<open>s\<close>; \<open>c\<close> is the text captured by the group so far, and the
  continuation \<open>k\<close> receives the rest of the text and the capture and decides whether the
  remainder of the pattern matches. An alternative tries its left branch first, an option
  tries its body first, and the lazy repetition tries the shortest stretch first.
\<close>

fun rmatch ::
  "regex \<Rightarrow> string \<Rightarrow> string option \<Rightarrow>
   (string \<Rightarrow> string option \<Rightarrow> (string \<times> string) option) \<Rightarrow> (string \<times> string) option"
where
  "rmatch (Lit l) s c k = (if prefix l s then k (drop (length l) s) c else None)"
| "rmatch AnyLazy s c k = scan (\<lambda>s'. k s' c) s"
| "rmatch (Seq r1 r2) s c k = rmatch r1 s c (\<lambda>s' c'. rmatch r2 s' c' k)"
| "rmatch (Alt r1 r2) s c k =
     (case rmatch r1 s c k of Some x \<Rightarrow> Some x | None \<Rightarrow> rmatch r2 s c k)"
| "rmatch (Opt r) s c k =
     (case rmatch r s c k of Some x \<Rightarrow> Some x | None \<Rightarrow> k s c)"
| "rmatch (Grp r) s c k =
     rmatch r s c (\<lambda>s' c'. k s' (Some (take (length s - length s') s)))"

text \<open>
  A match at the start of \<open>s\<close> yields the text of group 1 (empty when the group took no
  part) and the text after the match.
\<close>

definition accept :: "string \<Rightarrow> string option \<Rightarrow> (string \<times> string) option" where
  "accept rest c = Some (case c of None \<Rightarrow> [] | Some g \<Rightarrow> g, rest)"

definition match_here :: "regex \<Rightarrow> string \<Rightarrow> (string \<times> string) option" where
  "match_here r s = rmatch r s None accept"

text \<open>\<^verbatim>\<open>re.search\<close>: the leftmost position at which the pattern matches.\<close>

definition search :: "regex \<Rightarrow> string \<Rightarrow> (string \<times> string) option" where
  "search r s = scan (match_here r) s"

text \<open>
  \<^verbatim>\<open>re.findall(pattern, s, re.DOTALL)\<close> for a pattern with one group: the text of the
  group for every match, the matches taken from the left without overlap. Each pattern of
  the program starts with literal text (lemmas \<open>patterns_start_literal\<close> and
  \<open>search_progress\<close> below), so a match is never empty and the search always resumes
  on a shorter text.
\<close>

fun findall :: "regex \<Rightarrow> string \<Rightarrow> string list" where
  "findall r s =
     (case search r s of
        None \<Rightarrow> []
      | Some (g, rest) \<Rightarrow> g # (if length rest < length s then findall r rest else []))"

declare findall.simps [simp del]

section \<open>The code-fence stripper\<close>

text \<open>
  \<^verbatim>\<open>
  def _extract_terraform_code(self, response: str) -> str:
      code_patterns = [
          r'```(?:terraform|hcl)?\n(.*?)\n```',
          r'```\n(.*?)\n```',
          r'```(.*?)```'
      ]
      for pattern in code_patterns:
          matches = re.findall(pattern, response, re.DOTALL)
          if matches:
              return matches[0].strip()
      return response.strip()
  \<close>
\<close>

definition fence :: string where
  "fence = ''```''"

definition pattern1 :: regex where
  "pattern1 =
     Seq (Lit ''```'')
       (Seq (Opt (Alt (Lit ''terraform'') (Lit ''hcl'')))
         (Seq (Lit ''\<newline>'') (Seq (Grp AnyLazy) (Lit ''\<newline>```''))))"

definition pattern2 :: regex where
  "pattern2 = Seq (Lit ''```\<newline>'') (Seq (Grp AnyLazy) (Lit ''\<newline>```''))"

definition pattern3 :: regex where
  "pattern3 = Seq (Lit ''```'') (Seq (Grp AnyLazy) (Lit ''```''))"

definition code_patterns :: "regex list" where
  "code_patterns = [pattern1, pattern2, pattern3]"

fun extract_loop :: "regex list \<Rightarrow> string \<Rightarrow> exn + string" where
  "extract_loop [] response = Inr (str_strip response)"
| "extract_loop (pattern # patterns) response =
     (let matches = findall pattern response
      in if matches \<noteq> []
         then (case index0 matches of Inl e \<Rightarrow> Inl e | Inr m \<Rightarrow> Inr (str_strip m))
         else extract_loop patterns response)"

definition extract_terraform_code :: "string \<Rightarrow> exn + string" where
  "extract_terraform_code response = extract_loop code_patterns response"

text \<open>
  The other extractors run the same loop on their own pattern lists:
  \<^verbatim>\<open>_extract_yaml_content\<close> with \<^verbatim>\<open>```(?:yaml|yml)?\n(.*?)\n```\<close>,
  \<^verbatim>\<open>_extract_dockerfile_content\<close> with \<^verbatim>\<open>```(?:dockerfile|docker)?\n(.*?)\n```\<close> and
  \<^verbatim>\<open>_extract_script_content\<close> with \<^verbatim>\<open>```(?:bash|sh|shell)?\n(.*?)\n```\<close>, each followed
  by \<^verbatim>\<open>```\n(.*?)\n```\<close> only.
\<close>

definition tagged_fence :: "regex \<Rightarrow> regex" where
  "tagged_fence tags =
     Seq (Lit ''```'')
       (Seq (Opt tags) (Seq (Lit ''\<newline>'') (Seq (Grp AnyLazy) (Lit ''\<newline>```''))))"

definition yaml_patterns :: "regex list" where
  "yaml_patterns = [tagged_fence (Alt (Lit ''yaml'') (Lit ''yml'')), pattern2]"

definition dockerfile_patterns :: "regex list" where
  "dockerfile_patterns = [tagged_fence (Alt (Lit ''dockerfile'') (Lit ''docker'')), pattern2]"

definition script_patterns :: "regex list" where
  "script_patterns =
     [tagged_fence (Alt (Lit ''bash'') (Alt (Lit ''sh'') (Lit ''shell''))), pattern2]"

definition extract_yaml_content :: "string \<Rightarrow> exn + string" where
  "extract_yaml_content response = extract_loop yaml_patterns response"

definition extract_dockerfile_content :: "string \<Rightarrow> exn + string" where
  "extract_dockerfile_content response = extract_loop dockerfile_patterns response"

definition extract_script_content :: "string \<Rightarrow> exn + string" where
  "extract_script_content response = extract_loop script_patterns response"

section \<open>The YAML-document splitter\<close>

text \<open>
  \<^verbatim>\<open>yaml.safe_load\<close> belongs to the PyYAML library, not to this repository: it is a
  parameter of the model, a function from the text of a document to the exception it
  raises or the Python value it builds. The values of \<^verbatim>\<open>safe_load\<close> are \<^verbatim>\<open>None\<close>,
  \<^verbatim>\<open>bool\<close>, \<^verbatim>\<open>int\<close>, \<^verbatim>\<open>float\<close>, \<^verbatim>\<open>str\<close>, \<^verbatim>\<open>bytes\<close> (the tag \<^verbatim>\<open>!!binary\<close>), \<^verbatim>\<open>list\<close>,
  \<^verbatim>\<open>dict\<close>, \<^verbatim>\<open>set\<close> and the dates of \<^verbatim>\<open>datetime\<close>. Of a float the program only observes
  whether it is nonzero, which \<open>PFloat\<close> carries; of a date it observes nothing. A
  \<^verbatim>\<open>dict\<close> is the list of its items, so its keys are distinct and \<open>map_of\<close> is the lookup.
\<close>

datatype pyval =
  PNone
| PBool bool
| PInt int
| PFloat bool
| PStr string
| PBytes string
| PList "pyval list"
| PDict "(pyval \<times> pyval) list"
| PSet "pyval list"
| PDate

type_synonym loader = "string \<Rightarrow> exn + pyval"

text \<open>The truth value of \<^verbatim>\<open>yaml_doc\<close> in \<^verbatim>\<open>if yaml_doc and ...\<close>.\<close>

fun truthy :: "pyval \<Rightarrow> bool" where
  "truthy PNone = False"
| "truthy (PBool b) = b"
| "truthy (PInt i) = (i \<noteq> 0)"
| "truthy (PFloat nonzero) = nonzero"
| "truthy (PStr s) = (s \<noteq> [])"
| "truthy (PBytes s) = (s \<noteq> [])"
| "truthy (PList xs) = (xs \<noteq> [])"
| "truthy (PDict kvs) = (kvs \<noteq> [])"
| "truthy (PSet xs) = (xs \<noteq> [])"
| "truthy PDate = True"

text \<open>
  \<^verbatim>\<open>'kind' in yaml_doc\<close>: a substring test on a \<^verbatim>\<open>str\<close>, a membership test on a list
  or a set, a key test on a \<^verbatim>\<open>dict\<close>, and a TypeError on every other value.
\<close>

fun contains_kind :: "pyval \<Rightarrow> exn + bool" where
  "contains_kind (PStr s) = Inr (str_contains ''kind'' s)"
| "contains_kind (PList xs) = Inr (PStr ''kind'' \<in> set xs)"
| "contains_kind (PDict kvs) = Inr (PStr ''kind'' \<in> fst ` set kvs)"
| "contains_kind (PSet xs) = Inr (PStr ''kind'' \<in> set xs)"
| "contains_kind _ = Inl TypeError"

text \<open>
  \<^verbatim>\<open>yaml_doc['kind']\<close>: the value of the key in a \<^verbatim>\<open>dict\<close> (KeyError without the key);
  a \<^verbatim>\<open>str\<close>, a list and \<^verbatim>\<open>bytes\<close> take integer indices only, and the other values
  cannot be subscripted: TypeError.
\<close>

fun getitem_kind :: "pyval \<Rightarrow> exn + pyval" where
  "getitem_kind (PDict kvs) =
     (case map_of kvs (PStr ''kind'') of None \<Rightarrow> Inl KeyError | Some v \<Rightarrow> Inr v)"
| "getitem_kind _ = Inl TypeError"

text \<open>\<^verbatim>\<open>.lower()\<close> exists on \<^verbatim>\<open>str\<close> and \<^verbatim>\<open>bytes\<close>; elsewhere it is an AttributeError.\<close>

fun lower_method :: "pyval \<Rightarrow> exn + pyval" where
  "lower_method (PStr s) = Inr (PStr (str_lower s))"
| "lower_method (PBytes s) = Inr (PBytes (bytes_lower s))"
| "lower_method _ = Inl AttributeError"

text \<open>
  \<^verbatim>\<open>
  def _parse_k8s_manifests(self, response: str) -> Dict[str, str]:
      manifests = {}
      docs = response.split('---')
      for doc in docs:
          doc = doc.strip()
          if not doc:
              continue
          try:
              yaml_doc = yaml.safe_load(doc)
              if yaml_doc and 'kind' in yaml_doc:
                  kind = yaml_doc['kind'].lower()
                  manifests[kind] = doc
          except:
              if 'Deployment' in doc:
                  manifests['deployment'] = doc
              elif 'Service' in doc:
                  manifests['service'] = doc
              elif 'Ingress' in doc:
                  manifests['ingress'] = doc
      return manifests
  \<close>
  The dictionary \<^verbatim>\<open>manifests\<close> is the list of its items in insertion order;
  \<^verbatim>\<open>manifests[k] = v\<close> replaces the value of a key that is present, in place, and appends
  the item otherwise, which is \<^const>\<open>AList.update\<close>.
\<close>

type_synonym manifests = "(pyval \<times> string) list"

definition try_block :: "loader \<Rightarrow> manifests \<Rightarrow> string \<Rightarrow> exn + manifests" where
  "try_block safe_load manifests doc =
     (case safe_load doc of
        Inl e \<Rightarrow> Inl e
      | Inr yaml_doc \<Rightarrow>
          if truthy yaml_doc then
            (case contains_kind yaml_doc of
               Inl e \<Rightarrow> Inl e
             | Inr has_kind \<Rightarrow>
                 if has_kind then
                   (case getitem_kind yaml_doc of
                      Inl e \<Rightarrow> Inl e
                    | Inr v \<Rightarrow>
                        (case lower_method v of
                           Inl e \<Rightarrow> Inl e
                         | Inr kind \<Rightarrow> Inr (AList.update kind doc manifests)))
                 else Inr manifests)
          else Inr manifests)"

definition except_block :: "manifests \<Rightarrow> string \<Rightarrow> exn + manifests" where
  "except_block manifests doc =
     (if str_contains ''Deployment'' doc then Inr (AList.update (PStr ''deployment'') doc manifests)
      else if str_contains ''Service'' doc then Inr (AList.update (PStr ''service'') doc manifests)
      else if str_contains ''Ingress'' doc then Inr (AList.update (PStr ''ingress'') doc manifests)
      else Inr manifests)"

text \<open>The bare \<^verbatim>\<open>except:\<close> catches every exception of the \<^verbatim>\<open>try\<close> block.\<close>

definition handle_doc :: "loader \<Rightarrow> manifests \<Rightarrow> string \<Rightarrow> exn + manifests" where
  "handle_doc safe_load manifests doc =
     (case try_block safe_load manifests doc of
        Inl e \<Rightarrow> except_block manifests doc
      | Inr m \<Rightarrow> Inr m)"

fun parse_loop :: "loader \<Rightarrow> string list \<Rightarrow> manifests \<Rightarrow> exn + manifests" where
  "parse_loop safe_load [] manifests = Inr manifests"
| "parse_loop safe_load (d # docs) manifests =
     (let doc = str_strip d
      in if doc = [] then parse_loop safe_load docs manifests
         else (case handle_doc safe_load manifests doc of
                 Inl e \<Rightarrow> Inl e
               | Inr m \<Rightarrow> parse_loop safe_load docs m))"

definition parse_k8s_manifests :: "loader \<Rightarrow> string \<Rightarrow> exn + manifests" where
  "parse_k8s_manifests safe_load response =
     parse_loop safe_load (str_split ''---'' response) []"

text \<open>
  Three readings of the loop, used to state its properties: the fragments that the loop
  body handles, the key under which the \<^verbatim>\<open>try\<close> block alone files a fragment, and the key
  under which the whole loop body files it. The last two are read off the source's
  own blocks, run on the empty dictionary.
\<close>

definition docs_of :: "string \<Rightarrow> string list" where
  "docs_of response = filter (\<lambda>doc. doc \<noteq> []) (map str_strip (str_split ''---'' response))"

definition declared_kind :: "loader \<Rightarrow> string \<Rightarrow> pyval option" where
  "declared_kind safe_load doc =
     (case try_block safe_load [] doc of Inr [(k, v)] \<Rightarrow> Some k | _ \<Rightarrow> None)"

definition key_of :: "loader \<Rightarrow> string \<Rightarrow> pyval option" where
  "key_of safe_load doc =
     (case handle_doc safe_load [] doc of Inr [(k, v)] \<Rightarrow> Some k | _ \<Rightarrow> None)"

section \<open>The generation steps and the orchestrator\<close>

text \<open>
  The prompts are fixed texts built from the configuration; each is named after the
  step that sends it. The endpoint is a parameter: \<open>endpoint n p\<close> is what the call
  \<^verbatim>\<open>generate_content(p, ...)\<close> followed by \<^verbatim>\<open>response.text\<close> gives when \<open>n\<close> calls were
  made before it, the text or the exception raised.
\<close>

datatype prompt =
  Prompt1
| Prompt2
| VariablesPrompt
| ManifestsPrompt
| WorkflowPrompt
| DockerfilePrompt
| SetupPrompt
| DeployPrompt

type_synonym endpoint = "nat \<Rightarrow> prompt \<Rightarrow> exn + string"

text \<open>
  A file is named by its path; a manifest goes to \<^verbatim>\<open>f"{name}.yaml"\<close>, named after its
  key in the dictionary.
\<close>

datatype target = Path string | ManifestFile pyval

text \<open>
  The effects of a run: the prompts sent, oldest first; the files written, oldest first;
  the scripts made executable; the lines of \<^verbatim>\<open>logger.error\<close>, each the fixed part of the
  message and the exception in it; whether the completion summary was printed. The
  lines of \<^verbatim>\<open>logger.info\<close> are left out.
\<close>

record world =
  calls :: "prompt list"
  files :: "(target \<times> string) list"
  executable :: "string list"
  error_log :: "(string \<times> exn) list"
  summary_printed :: bool

type_synonym 'a action = "world \<Rightarrow> (exn + 'a) \<times> world"

text \<open>
  The operations that a run asks of the operating system: \<^verbatim>\<open>open(path, 'w')\<close> with
  \<^verbatim>\<open>f.write(content)\<close>, \<^verbatim>\<open>os.chmod(path, 0o755)\<close> and \<^verbatim>\<open>print\<close>. Each of them can raise:
  a directory is missing, the name of a manifest holds a slash or a NUL, the content
  cannot be encoded. The system is a parameter: \<open>system w op\<close> is the exception that
  the operation \<open>op\<close> raises after the effects recorded in \<open>w\<close>, or \<open>None\<close> when the
  operation succeeds. An operation that raises leaves the record as it was.
\<close>

datatype sys_op = Write target string | Chmod string | Print

type_synonym system = "world \<Rightarrow> sys_op \<Rightarrow> exn option"

definition io_return :: "exn + 'a \<Rightarrow> 'a action" where
  "io_return r w = (r, w)"

definition io_bind :: "'a action \<Rightarrow> ('a \<Rightarrow> 'b action) \<Rightarrow> 'b action" where
  "io_bind m f w = (case m w of (Inl e, w') \<Rightarrow> (Inl e, w') | (Inr x, w') \<Rightarrow> f x w')"

text \<open>
  \<^verbatim>\<open>try: ... except Exception as e: self.logger.error(f"msg: {str(e)}"); raise\<close>:
  the exception is logged and raised again, the same one.
\<close>

definition log_and_reraise :: "string \<Rightarrow> 'a action \<Rightarrow> 'a action" where
  "log_and_reraise msg m w =
     (case m w of
        (Inl e, w') \<Rightarrow> (Inl e, w'\<lparr>error_log := error_log w' @ [(msg, e)]\<rparr>)
      | (Inr x, w') \<Rightarrow> (Inr x, w'))"

definition write_file :: "system \<Rightarrow> target \<Rightarrow> string \<Rightarrow> unit action" where
  "write_file system path content w =
     (case system w (Write path content) of
        Some e \<Rightarrow> (Inl e, w)
      | None \<Rightarrow> (Inr (), w\<lparr>files := files w @ [(path, content)]\<rparr>))"

definition chmod_755 :: "system \<Rightarrow> string \<Rightarrow> unit action" where
  "chmod_755 system path w =
     (case system w (Chmod path) of
        Some e \<Rightarrow> (Inl e, w)
      | None \<Rightarrow> (Inr (), w\<lparr>executable := executable w @ [path]\<rparr>))"

definition generate_content :: "endpoint \<Rightarrow> prompt \<Rightarrow> string action" where
  "generate_content endpoint p w = (endpoint (length (calls w)) p, w\<lparr>calls := calls w @ [p]\<rparr>)"

definition call_gemini_api :: "endpoint \<Rightarrow> prompt \<Rightarrow> string action" where
  "call_gemini_api endpoint p =
     log_and_reraise ''Gemini API call failed'' (generate_content endpoint p)"

definition generate_complete_terraform_main :: "endpoint \<Rightarrow> system \<Rightarrow> string action" where
  "generate_complete_terraform_main endpoint system =
     log_and_reraise ''Failed to generate complete Terraform main.tf''
       (io_bind (call_gemini_api endpoint Prompt1) (\<lambda>response.
        io_bind (io_return (extract_terraform_code response)) (\<lambda>terraform_content.
        io_bind (write_file system (Path ''terraform/Stage1/main.tf'') terraform_content) (\<lambda>_.
        io_bind (call_gemini_api endpoint Prompt2) (\<lambda>response.
        io_bind (io_return (extract_terraform_code response)) (\<lambda>terraform_content.
        io_bind (write_file system (Path ''terraform/Stage2/main.tf'') terraform_content) (\<lambda>_.
        io_return (Inr terraform_content))))))))"

definition generate_terraform_variables :: "endpoint \<Rightarrow> system \<Rightarrow> string action" where
  "generate_terraform_variables endpoint system =
     log_and_reraise ''Failed to generate Terraform variables.tf''
       (io_bind (call_gemini_api endpoint VariablesPrompt) (\<lambda>response.
        io_bind (io_return (extract_terraform_code response)) (\<lambda>variables_content.
        io_bind (write_file system (Path ''terraform/Stage1/variables.tf'') variables_content) (\<lambda>_.
        io_return (Inr variables_content)))))"

fun save_manifests :: "system \<Rightarrow> manifests \<Rightarrow> unit action" where
  "save_manifests system [] = io_return (Inr ())"
| "save_manifests system ((name, content) # items) =
     io_bind (write_file system (ManifestFile name) content) (\<lambda>_. save_manifests system items)"

definition generate_kubernetes_manifests ::
  "endpoint \<Rightarrow> loader \<Rightarrow> system \<Rightarrow> manifests action" where
  "generate_kubernetes_manifests endpoint safe_load system =
     log_and_reraise ''Failed to generate Kubernetes manifests''
       (io_bind (call_gemini_api endpoint ManifestsPrompt) (\<lambda>response.
        io_bind (io_return (parse_k8s_manifests safe_load response)) (\<lambda>manifests.
        io_bind (save_manifests system manifests) (\<lambda>_.
        io_return (Inr manifests)))))"

definition generate_github_actions_workflow :: "endpoint \<Rightarrow> system \<Rightarrow> string action" where
  "generate_github_actions_workflow endpoint system =
     log_and_reraise ''Failed to generate GitHub Actions workflow''
       (io_bind (call_gemini_api endpoint WorkflowPrompt) (\<lambda>response.
        io_bind (io_return (extract_yaml_content response)) (\<lambda>workflow_content.
        io_bind (write_file system (Path ''.github/workflows/deploy.yml'') workflow_content) (\<lambda>_.
        io_return (Inr workflow_content)))))"

definition generate_dockerfile :: "endpoint \<Rightarrow> system \<Rightarrow> string action" where
  "generate_dockerfile endpoint system =
     log_and_reraise ''Failed to generate Dockerfile''
       (io_bind (call_gemini_api endpoint DockerfilePrompt) (\<lambda>response.
        io_bind (io_return (extract_dockerfile_content response)) (\<lambda>dockerfile_content.
        io_bind (write_file system (Path ''Dockerfile'') dockerfile_content) (\<lambda>_.
        io_return (Inr dockerfile_content)))))"

fun save_scripts :: "system \<Rightarrow> (string \<times> string) list \<Rightarrow> unit action" where
  "save_scripts system [] = io_return (Inr ())"
| "save_scripts system ((script_name, content) # items) =
     io_bind (write_file system (Path (''scripts/'' @ script_name @ ''.sh'')) content) (\<lambda>_.
     io_bind (chmod_755 system (''scripts/'' @ script_name @ ''.sh'')) (\<lambda>_.
     save_scripts system items))"

definition generate_deployment_scripts ::
  "endpoint \<Rightarrow> system \<Rightarrow> (string \<times> string) list action" where
  "generate_deployment_scripts endpoint system =
     log_and_reraise ''Failed to generate deployment scripts''
       (io_bind (call_gemini_api endpoint SetupPrompt) (\<lambda>setup_response.
        io_bind (io_return (extract_script_content setup_response)) (\<lambda>setup_content.
        io_bind (call_gemini_api endpoint DeployPrompt) (\<lambda>deploy_response.
        io_bind (io_return (extract_script_content deploy_response)) (\<lambda>deploy_content.
        io_bind (save_scripts system [(''setup'', setup_content), (''deploy'', deploy_content)]) (\<lambda>_.
        io_return (Inr [(''setup'', setup_content), (''deploy'', deploy_content)])))))))"

definition print_completion_summary :: "system \<Rightarrow> unit action" where
  "print_completion_summary system w =
     (case system w Print of
        Some e \<Rightarrow> (Inl e, w)
      | None \<Rightarrow> (Inr (), w\<lparr>summary_printed := True\<rparr>))"

definition run_full_pipeline :: "endpoint \<Rightarrow> loader \<Rightarrow> system \<Rightarrow> unit action" where
  "run_full_pipeline endpoint safe_load system =
     log_and_reraise ''Pipeline failed''
       (io_bind (generate_complete_terraform_main endpoint system) (\<lambda>_.
        io_bind (generate_terraform_variables endpoint system) (\<lambda>_.
        io_bind (generate_kubernetes_manifests endpoint safe_load system) (\<lambda>_.
        io_bind (generate_github_actions_workflow endpoint system) (\<lambda>_.
        io_bind (generate_dockerfile endpoint system) (\<lambda>_.
        io_bind (generate_deployment_scripts endpoint system) (\<lambda>_.
        print_completion_summary system)))))))"

text \<open>The fixed sequence of the generation calls of a run.\<close>

definition pipeline_prompts :: "prompt list" where
  "pipeline_prompts =
     [Prompt1, Prompt2, VariablesPrompt, ManifestsPrompt, WorkflowPrompt, DockerfilePrompt,
      SetupPrompt, DeployPrompt]"

section \<open>Notions used in the statements\<close>

text \<open>
  While a pattern is matched on \<open>s\<close>, the capture is either the one the match started
  with or a stretch of \<open>s\<close>.
\<close>

definition cap_ok :: "string \<Rightarrow> string option \<Rightarrow> string option \<Rightarrow> bool" where
  "cap_ok s c c' = (c' = c \<or> (\<exists>g. c' = Some g \<and> sublist g s))"

text \<open>The loop body as a function on the dictionary: the fragment is filed under its key.\<close>

definition file_doc :: "loader \<Rightarrow> manifests \<Rightarrow> string \<Rightarrow> manifests" where
  "file_doc safe_load manifests doc =
     (case key_of safe_load doc of None \<Rightarrow> manifests | Some k \<Rightarrow> AList.update k doc manifests)"

text \<open>
  The values on which the test \<^verbatim>\<open>yaml_doc and 'kind' in yaml_doc\<close> is false and raises
  nothing: the values that count as false, and a \<^verbatim>\<open>str\<close>, a list, a set or a \<^verbatim>\<open>dict\<close> that
  does not contain \<^verbatim>\<open>'kind'\<close>.
\<close>

fun quiet_without_kind :: "pyval \<Rightarrow> bool" where
  "quiet_without_kind PNone = True"
| "quiet_without_kind (PBool b) = (\<not> b)"
| "quiet_without_kind (PInt i) = (i = 0)"
| "quiet_without_kind (PFloat nonzero) = (\<not> nonzero)"
| "quiet_without_kind (PStr s) = (\<not> str_contains ''kind'' s)"
| "quiet_without_kind (PBytes s) = (s = [])"
| "quiet_without_kind (PList xs) = (PStr ''kind'' \<notin> set xs)"
| "quiet_without_kind (PDict kvs) = (PStr ''kind'' \<notin> fst ` set kvs)"
| "quiet_without_kind (PSet xs) = (PStr ''kind'' \<notin> set xs)"
| "quiet_without_kind PDate = False"

text \<open>
  How an action that is to send the prompts \<open>ps\<close> ended, when \<open>n\<close> calls were made
  before it, \<open>r\<close> is its result and it made \<open>k\<close> calls. The calls it made are the
  first \<open>k\<close> of \<open>ps\<close>; a call among them that raised is the last of them, and its
  exception is the result; an action that returns a value made all the calls; and when
  no operation of the system raises, an action that ends with an exception made a call
  at least, and the exception is the one that its last call raised.
\<close>

definition stops ::
  "endpoint \<Rightarrow> system \<Rightarrow> nat \<Rightarrow> prompt list \<Rightarrow> exn + 'a \<Rightarrow> nat \<Rightarrow> bool" where
  "stops endpoint system n ps r k =
     (k \<le> length ps
      \<and> (\<forall>j<k. \<forall>e. endpoint (n + j) (ps ! j) = Inl e \<longrightarrow> Suc j = k \<and> r = Inl e)
      \<and> ((\<exists>x. r = Inr x) \<longrightarrow> k = length ps)
      \<and> ((\<forall>w op. system w op = None) \<longrightarrow>
           (\<forall>e. r = Inl e \<longrightarrow> 0 < k \<and> endpoint (n + (k - 1)) (ps ! (k - 1)) = Inl e)))"

text \<open>An action sends the prompts \<open>ps\<close>: from every state it ends in that way.\<close>

definition sends :: "endpoint \<Rightarrow> system \<Rightarrow> prompt list \<Rightarrow> 'a action \<Rightarrow> bool" where
  "sends endpoint system ps m =
     (\<forall>w. \<exists>k. stops endpoint system (length (calls w)) ps (fst (m w)) k
            \<and> calls (snd (m w)) = calls w @ take k ps)"

section \<open>Sample inputs\<close>

text \<open>
  What \<^verbatim>\<open>yaml.safe_load\<close> returns on the documents of the examples below: a mapping
  with the one key \<^verbatim>\<open>kind\<close> for the one-line manifests, and the text itself, a plain
  scalar, for the documents \<^verbatim>\<open>x\<close>, \<^verbatim>\<open>y\<close>, \<^verbatim>\<open>x Deployment\<close> and
  \<^verbatim>\<open>kind of Deployment\<close>.
\<close>

definition sample_load :: loader where
  "sample_load doc =
     (if doc = ''kind: Deployment'' then Inr (PDict [(PStr ''kind'', PStr ''Deployment'')])
      else if doc = ''kind: Service'' then Inr (PDict [(PStr ''kind'', PStr ''Service'')])
      else if doc = ''kind: SERVICE'' then Inr (PDict [(PStr ''kind'', PStr ''SERVICE'')])
      else if doc = ''kind: Ingress'' then Inr (PDict [(PStr ''kind'', PStr ''Ingress'')])
      else if doc = ''kind: a/b'' then Inr (PDict [(PStr ''kind'', PStr ''a/b'')])
      else Inr (PStr doc))"

text \<open>An endpoint whose third call fails with a quota error, and the state before a run.\<close>

definition sample_endpoint :: endpoint where
  "sample_endpoint n p = (if n = 2 then Inl (APIError ''quota'') else Inr ''resource {}'')"

definition fresh_world :: world where
  "fresh_world =
     \<lparr>calls = [], files = [], executable = [], error_log = [], summary_printed = False\<rparr>"

text \<open>
  A system on which every operation succeeds, and one that refuses a manifest whose name
  holds a slash, as \<^verbatim>\<open>open\<close> does when the directory named before the slash is missing.
\<close>

definition quiet_system :: system where
  "quiet_system w op = None"

definition strict_system :: system where
  "strict_system w op =
     (case op of
        Write (ManifestFile (PStr name)) content \<Rightarrow>
          if CHR ''/'' \<in> set name then Some (OSError ''No such file or directory'') else None
      | _ \<Rightarrow> None)"

text \<open>
  An endpoint that answers the manifests prompt with a kind that holds a slash and
  fails on the workflow prompt.
\<close>

definition slash_endpoint :: endpoint where
  "slash_endpoint n p =
     (if p = ManifestsPrompt then Inr ''kind: a/b''
      else if p = WorkflowPrompt then Inl (APIError ''quota'')
      else Inr ''resource {}'')"

section \<open>Texts: containment, trimming, splitting\<close>

lemma str_contains_sublist: "str_contains sub s \<longleftrightarrow> sublist sub s"
  by (induction s) (auto simp: sublist_Cons_right)

lemma str_contains_append_left: "str_contains sub s \<Longrightarrow> str_contains sub (p @ s)"
  unfolding str_contains_sublist
  by (meson sublist_order.order.trans suffix_imp_sublist suffixI)

lemma not_contains_suffix: "\<not> str_contains sub s \<Longrightarrow> \<not> str_contains sub (drop i s)"
  by (metis append_take_drop_id str_contains_append_left)

lemma not_contains_drop: "\<not> str_contains sub s \<Longrightarrow> \<not> prefix sub (drop i s)"
proof (induction s arbitrary: i)
  case Nil
  then show ?case by simp
next
  case (Cons c cs)
  then show ?case by (cases i) auto
qed

lemma str_strip_sublist: "sublist (str_strip s) s"
proof -
  have "sublist (dropWhile isspace (rev (dropWhile isspace s))) (rev (dropWhile isspace s))"
    by (rule sublist_dropWhile)
  then have "sublist (str_strip s) (dropWhile isspace s)"
    by (simp add: str_strip_def sublist_rev_left)
  moreover have "sublist (dropWhile isspace s) s" by (rule sublist_dropWhile)
  ultimately show ?thesis by (rule sublist_order.order.trans)
qed

lemma dropWhile_id: "xs = [] \<or> \<not> P (hd xs) \<Longrightarrow> dropWhile P xs = xs"
  by (cases xs) auto

lemma dropWhile_rev_nonempty: "dropWhile P (rev a) \<noteq> [] \<Longrightarrow> a \<noteq> []"
  by auto

lemma last_dropWhile_rev:
  assumes "dropWhile P (rev a) \<noteq> []"
  shows "last (dropWhile P (rev a)) = hd a"
proof -
  have "suffix (dropWhile P (rev a)) (rev a)" by (rule suffix_dropWhile)
  then obtain p where "rev a = p @ dropWhile P (rev a)" by (auto simp: suffix_def)
  then have "last (rev a) = last (dropWhile P (rev a))" using assms
    by (metis last_appendR)
  moreover have "a \<noteq> []" using assms by auto
  ultimately show ?thesis by (simp add: last_rev)
qed

lemma str_strip_ends:
  "str_strip s = [] \<or> (\<not> isspace (hd (str_strip s)) \<and> \<not> isspace (last (str_strip s)))"
proof (cases "str_strip s = []")
  case True
  then show ?thesis by simp
next
  case False
  let ?a = "dropWhile isspace s"
  let ?b = "dropWhile isspace (rev ?a)"
  have b: "?b \<noteq> []" using False by (simp add: str_strip_def)
  have a: "?a \<noteq> []" using b by (rule dropWhile_rev_nonempty)
  have "\<not> isspace (hd ?b)" using b by (rule hd_dropWhile)
  then have 1: "\<not> isspace (last (str_strip s))" using b by (simp add: str_strip_def last_rev)
  have "last ?b = hd ?a" using b by (rule last_dropWhile_rev)
  moreover have "\<not> isspace (hd ?a)" using a by (rule hd_dropWhile)
  ultimately have 2: "\<not> isspace (hd (str_strip s))" using b by (simp add: str_strip_def hd_rev)
  show ?thesis using 1 2 by simp
qed

lemma str_strip_fixed:
  assumes "t = [] \<or> (\<not> isspace (hd t) \<and> \<not> isspace (last t))"
  shows "str_strip t = t"
proof (cases "t = []")
  case True
  then show ?thesis by (simp add: str_strip_def)
next
  case False
  with assms have h: "\<not> isspace (hd t)" and l: "\<not> isspace (last t)" by auto
  have 1: "dropWhile isspace t = t" using h by (simp add: dropWhile_id)
  have "hd (rev t) = last t" using False by (simp add: hd_rev)
  then have 2: "dropWhile isspace (rev t) = rev t" using l by (simp add: dropWhile_id)
  show ?thesis by (simp add: str_strip_def 1 2)
qed

lemma str_strip_idem: "str_strip (str_strip s) = str_strip s"
  by (rule str_strip_fixed) (rule str_strip_ends)

lemma str_strip_decomp:
  "\<exists>a b. s = a @ str_strip s @ b \<and> (\<forall>c\<in>set a. isspace c) \<and> (\<forall>c\<in>set b. isspace c)"
proof -
  let ?a = "takeWhile isspace s"
  let ?m = "dropWhile isspace s"
  let ?b = "rev (takeWhile isspace (rev ?m))"
  have "rev (takeWhile isspace (rev ?m) @ dropWhile isspace (rev ?m)) =
        rev (dropWhile isspace (rev ?m)) @ rev (takeWhile isspace (rev ?m))"
    by (rule rev_append)
  moreover have "takeWhile isspace (rev ?m) @ dropWhile isspace (rev ?m) = rev ?m"
    by (rule takeWhile_dropWhile_id)
  ultimately have "rev (rev ?m) = rev (dropWhile isspace (rev ?m)) @ ?b"
    by (simp only:)
  then have "?m = str_strip s @ ?b" by (simp only: rev_rev_ident str_strip_def)
  then have "s = ?a @ str_strip s @ ?b" by (metis takeWhile_dropWhile_id)
  moreover have "\<forall>c\<in>set ?a. isspace c" by (auto dest: set_takeWhileD)
  moreover have "\<forall>c\<in>set ?b. isspace c" by (auto dest: set_takeWhileD)
  ultimately show ?thesis by blast
qed

section \<open>The matcher\<close>

lemma scan_skip:
  "(\<And>i. i < length p \<Longrightarrow> f (drop i (p @ s)) = None) \<Longrightarrow> scan f (p @ s) = scan f s"
proof (induction p)
  case Nil
  then show ?case by simp
next
  case (Cons c p)
  have "f ((c # p) @ s) = None" using Cons.prems [of 0] by simp
  moreover have "scan f (p @ s) = scan f s"
  proof (rule Cons.IH)
    fix i assume "i < length p"
    then show "f (drop i (p @ s)) = None" using Cons.prems [of "Suc i"] by simp
  qed
  ultimately show ?case by simp
qed

lemma scan_hit: "f s = Some r \<Longrightarrow> scan f s = Some r"
  by (cases s) simp_all

lemma scan_None: "(\<And>i. f (drop i s) = None) \<Longrightarrow> scan f s = None"
proof (induction s)
  case Nil
  then show ?case using Nil [of 0] by simp
next
  case (Cons c cs)
  have "f (c # cs) = None" using Cons.prems [of 0] by simp
  moreover have "scan f cs = None"
  proof (rule Cons.IH)
    fix i show "f (drop i cs) = None" using Cons.prems [of "Suc i"] by simp
  qed
  ultimately show ?case by simp
qed

lemma scan_SomeD: "scan f s = Some r \<Longrightarrow> \<exists>i\<le>length s. f (drop i s) = Some r"
proof (induction s)
  case Nil
  then show ?case by simp
next
  case (Cons c cs)
  show ?case
  proof (cases "f (c # cs)")
    case None
    with Cons obtain i where "i \<le> length cs" "f (drop i cs) = Some r" by auto
    then have "Suc i \<le> length (c # cs) \<and> f (drop (Suc i) (c # cs)) = Some r" by simp
    then show ?thesis by blast
  next
    case (Some a)
    with Cons.prems have "f (drop 0 (c # cs)) = Some r" by simp
    then show ?thesis by blast
  qed
qed

text \<open>
  Whatever a pattern matches, the continuation is entered on a rest of the text, and the
  capture it is given is a stretch of the text.
\<close>

lemma rmatch_SomeD:
  "rmatch r s c k = Some res \<Longrightarrow>
   \<exists>s' c'. k s' c' = Some res \<and> suffix s' s \<and> cap_ok s c c'"
proof (induction r s c k arbitrary: res rule: rmatch.induct)
  case (1 l s c k)
  then have "k (drop (length l) s) c = Some res" by (simp split: if_splits)
  moreover have "suffix (drop (length l) s) s" by (rule suffix_drop)
  ultimately show ?case unfolding cap_ok_def by blast
next
  case (2 s c k)
  then obtain i where "k (drop i s) c = Some res" by (auto dest: scan_SomeD)
  moreover have "suffix (drop i s) s" by (rule suffix_drop)
  ultimately show ?case unfolding cap_ok_def by blast
next
  case (3 r1 r2 s c k)
  from 3(2,3) obtain s1 c1
    where a: "rmatch r2 s1 c1 k = Some res" "suffix s1 s" "cap_ok s c c1"
    by fastforce
  from 3(1) [OF a(1)] obtain s2 c2
    where b: "k s2 c2 = Some res" "suffix s2 s1" "cap_ok s1 c1 c2"
    by blast
  have "suffix s2 s" using a(2) b(2) by (rule suffix_order.trans[rotated])
  moreover have "cap_ok s c c2"
    using a(2,3) b(3) unfolding cap_ok_def
    by (metis sublist_order.order.trans suffix_imp_sublist)
  ultimately show ?case using b(1) by blast
next
  case (4 r1 r2 s c k)
  then show ?case by (auto split: option.splits)
next
  case (5 r s c k)
  then show ?case by (fastforce split: option.splits simp: cap_ok_def)
next
  case (6 r s c k)
  from 6 obtain s1 c1
    where a: "k s1 (Some (take (length s - length s1) s)) = Some res" "suffix s1 s"
    by fastforce
  have "sublist (take (length s - length s1) s) s" by (rule sublist_take)
  then show ?case using a by (auto simp: cap_ok_def)
qed

lemma match_here_sublist: "match_here r s = Some (g, rest) \<Longrightarrow> sublist g s \<and> suffix rest s"
  unfolding match_here_def
  by (drule rmatch_SomeD) (auto simp: cap_ok_def accept_def)

lemma search_sublist: "search r s = Some (g, rest) \<Longrightarrow> sublist g s \<and> suffix rest s"
  unfolding search_def
proof (drule scan_SomeD)
  assume "\<exists>i\<le>length s. match_here r (drop i s) = Some (g, rest)"
  then obtain i where "match_here r (drop i s) = Some (g, rest)" by blast
  then have "sublist g (drop i s)" "suffix rest (drop i s)" by (auto dest: match_here_sublist)
  then show "sublist g s \<and> suffix rest s"
    by (meson sublist_order.order.trans suffix_drop suffix_imp_sublist suffix_order.trans)
qed

lemma search_progress:
  assumes "search (Seq (Lit l) r) s = Some (g, rest)" and "l \<noteq> []"
  shows "length rest < length s"
proof -
  from assms(1) obtain i where "match_here (Seq (Lit l) r) (drop i s) = Some (g, rest)"
    unfolding search_def by (auto dest: scan_SomeD)
  then have p: "prefix l (drop i s)"
    and m: "rmatch r (drop (length l) (drop i s)) None accept = Some (g, rest)"
    by (auto simp: match_here_def split: if_splits)
  from m have "suffix rest (drop (length l) (drop i s))"
    by (auto dest!: rmatch_SomeD simp: accept_def)
  then have "length rest \<le> length (drop (length l) (drop i s))" by (rule suffix_length_le)
  then have a: "length rest \<le> length (drop i s) - length l" by (simp only: length_drop)
  have b: "length l \<le> length (drop i s)" using p by (rule prefix_length_le)
  have c: "0 < length l" using assms(2) by simp
  from a b c have "length rest < length (drop i s)" by linarith
  also have "\<dots> \<le> length s" by simp
  finally show ?thesis .
qed

lemma patterns_start_literal:
  "p \<in> set (code_patterns @ yaml_patterns @ dockerfile_patterns @ script_patterns) \<Longrightarrow>
   \<exists>l r. p = Seq (Lit l) r \<and> l \<noteq> []"
  by (auto simp: code_patterns_def yaml_patterns_def dockerfile_patterns_def
      script_patterns_def pattern1_def pattern2_def pattern3_def tagged_fence_def)

lemma findall_Nil_iff: "findall r s = [] \<longleftrightarrow> search r s = None"
  by (subst findall.simps) (simp split: option.splits)

lemma findall_hd: "search r s = Some (g, rest) \<Longrightarrow> index0 (findall r s) = Inr g"
  by (subst findall.simps) (simp add: index0_def)

text \<open>Every pattern of the program starts with the fence and takes six characters or more.\<close>

lemma match_here_needs_fence:
  "p \<in> set code_patterns \<Longrightarrow> \<not> prefix fence s \<Longrightarrow> match_here p s = None"
  by (auto simp: code_patterns_def pattern1_def pattern2_def pattern3_def match_here_def
      fence_def prefix_def)

lemma search_no_fence:
  assumes "p \<in> set code_patterns" "\<not> str_contains fence s"
  shows "search p s = None"
  unfolding search_def
proof (rule scan_None)
  fix i
  have "\<not> prefix fence (drop i s)" using assms(2) by (rule not_contains_drop)
  with assms(1) show "match_here p (drop i s) = None" by (rule match_here_needs_fence)
qed

section \<open>The code-fence stripper: what it returns\<close>

lemma extract_loop_cases:
  "extract_loop ps s = Inr (str_strip s) \<or>
   (\<exists>p g rest. p \<in> set ps \<and> search p s = Some (g, rest) \<and> extract_loop ps s = Inr (str_strip g))"
proof (induction ps)
  case Nil
  then show ?case by simp
next
  case (Cons p ps)
  show ?case
  proof (cases "search p s")
    case None
    then have "extract_loop (p # ps) s = extract_loop ps s" by (simp add: findall_Nil_iff)
    with Cons show ?thesis by auto
  next
    case (Some a)
    obtain g rest where a: "a = (g, rest)" by (cases a)
    have "findall p s \<noteq> []" using Some by (simp add: findall_Nil_iff)
    moreover have "index0 (findall p s) = Inr g" using Some a by (simp add: findall_hd)
    ultimately have "extract_loop (p # ps) s = Inr (str_strip g)" by simp
    with Some a show ?thesis by auto
  qed
qed

lemma extract_loop_total: "\<exists>t. extract_loop ps s = Inr t"
  using extract_loop_cases [of ps s] by auto

lemma extract_loop_sublist: "extract_loop ps s = Inr t \<Longrightarrow> sublist t s"
proof -
  assume t: "extract_loop ps s = Inr t"
  from extract_loop_cases [of ps s] show "sublist t s"
  proof
    assume "extract_loop ps s = Inr (str_strip s)"
    with t have "t = str_strip s" by simp
    then show ?thesis by (simp only: str_strip_sublist)
  next
    assume "\<exists>p g rest. p \<in> set ps \<and> search p s = Some (g, rest) \<and>
      extract_loop ps s = Inr (str_strip g)"
    then obtain p g rest where "search p s = Some (g, rest)" "extract_loop ps s = Inr (str_strip g)"
      by blast
    with t have "sublist g s" "t = str_strip g" by (auto dest: search_sublist)
    then show ?thesis by (metis str_strip_sublist sublist_order.order.trans)
  qed
qed

lemma extract_no_fence:
  "\<not> str_contains fence s \<Longrightarrow> extract_terraform_code s = Inr (str_strip s)"
  by (simp add: extract_terraform_code_def code_patterns_def findall_Nil_iff
      search_no_fence [unfolded code_patterns_def])

lemma extract_first:
  "search pattern1 s = Some (g, rest) \<Longrightarrow> extract_terraform_code s = Inr (str_strip g)"
  by (simp add: extract_terraform_code_def code_patterns_def findall_Nil_iff findall_hd)

text \<open>
  A closing fence on a line of its own cannot start inside a body that holds none, nor
  across the end of the body.
\<close>

lemma close_no_overlap:
  assumes "b \<noteq> []" "\<not> str_contains ''\<newline>```'' b"
  shows "\<not> prefix ''\<newline>```'' (b @ ''\<newline>```'' @ post)"
proof (cases b)
  case Nil
  with assms show ?thesis by simp
next
  case b1: (Cons c1 r1)
  show ?thesis
  proof (cases r1)
    case Nil
    with b1 show ?thesis by simp
  next
    case b2: (Cons c2 r2)
    show ?thesis
    proof (cases r2)
      case Nil
      with b1 b2 show ?thesis by simp
    next
      case b3: (Cons c3 r3)
      show ?thesis
      proof (cases r3)
        case Nil
        with b1 b2 b3 show ?thesis by simp
      next
        case b4: (Cons c4 r4)
        with b1 b2 b3 assms(2) show ?thesis by auto
      qed
    qed
  qed
qed

lemma rmatch_lazy_close:
  assumes "\<not> str_contains ''\<newline>```'' body"
  shows "rmatch (Seq (Grp AnyLazy) (Lit ''\<newline>```'')) (body @ ''\<newline>```'' @ post) c accept
         = Some (body, post)"
proof -
  let ?S = "body @ ''\<newline>```'' @ post"
  let ?f = "\<lambda>s'. rmatch (Lit ''\<newline>```'') s' (Some (take (length ?S - length s') ?S)) accept"
  have "rmatch (Seq (Grp AnyLazy) (Lit ''\<newline>```'')) ?S c accept = scan ?f ?S"
    by (simp only: rmatch.simps)
  also have "\<dots> = scan ?f (''\<newline>```'' @ post)"
  proof (rule scan_skip)
    fix i assume i: "i < length body"
    then have "drop i body \<noteq> []" by simp
    moreover have "\<not> str_contains ''\<newline>```'' (drop i body)"
      using assms by (rule not_contains_suffix)
    ultimately have "\<not> prefix ''\<newline>```'' (drop i body @ ''\<newline>```'' @ post)"
      by (rule close_no_overlap)
    then show "?f (drop i ?S) = None" using i by simp
  qed
  also have "\<dots> = Some (body, post)"
    by (rule scan_hit) (simp add: accept_def)
  finally show ?thesis .
qed

lemma match_here_fenced:
  assumes "tag \<in> {''terraform'', ''hcl'', ''''}" "\<not> str_contains ''\<newline>```'' body"
  shows "match_here pattern1 (''```'' @ tag @ ''\<newline>'' @ body @ ''\<newline>```'' @ post)
         = Some (body, post)"
proof -
  define T where "T = Seq (Grp AnyLazy) (Lit ''\<newline>```'')"
  have p1: "pattern1 =
      Seq (Lit ''```'')
        (Seq (Opt (Alt (Lit ''terraform'') (Lit ''hcl''))) (Seq (Lit ''\<newline>'') T))"
    by (simp add: pattern1_def T_def)
  have "rmatch T (body @ ''\<newline>```'' @ post) None accept = Some (body, post)"
    unfolding T_def using assms(2) by (rule rmatch_lazy_close)
  then show ?thesis using assms(1) by (auto simp: match_here_def p1)
qed

text \<open>
  Before the opening fence, in a text without a fence, the first pattern matches
  nowhere: a fence that starts on the last backticks of the text runs into the opening
  fence and is followed by a backtick, not by a tag or a newline.
\<close>

lemma open_no_overlap:
  assumes "p \<noteq> []" "\<not> str_contains ''```'' p"
  shows "match_here pattern1 (p @ ''```'' @ t) = None"
proof -
  define T where "T = Seq (Grp AnyLazy) (Lit ''\<newline>```'')"
  have p1: "pattern1 =
      Seq (Lit ''```'')
        (Seq (Opt (Alt (Lit ''terraform'') (Lit ''hcl''))) (Seq (Lit ''\<newline>'') T))"
    by (simp add: pattern1_def T_def)
  show ?thesis
  proof (cases p)
    case Nil
    with assms show ?thesis by simp
  next
    case q1: (Cons c1 r1)
    show ?thesis
    proof (cases r1)
      case Nil
      with q1 show ?thesis by (auto simp: match_here_def p1)
    next
      case q2: (Cons c2 r2)
      show ?thesis
      proof (cases r2)
        case Nil
        with q1 q2 show ?thesis by (auto simp: match_here_def p1)
      next
        case q3: (Cons c3 r3)
        with q1 q2 assms(2) have "\<not> prefix fence (p @ ''```'' @ t)"
          by (auto simp: fence_def)
        then show ?thesis by (simp add: match_here_needs_fence code_patterns_def)
      qed
    qed
  qed
qed

lemma search_fenced:
  assumes "tag \<in> {''terraform'', ''hcl'', ''''}" "\<not> str_contains ''```'' pre"
    "\<not> str_contains ''\<newline>```'' body"
  shows "search pattern1 (pre @ ''```'' @ tag @ ''\<newline>'' @ body @ ''\<newline>```'' @ post)
         = Some (body, post)"
proof -
  let ?t = "tag @ ''\<newline>'' @ body @ ''\<newline>```'' @ post"
  have "scan (match_here pattern1) (pre @ ''```'' @ ?t) =
        scan (match_here pattern1) (''```'' @ ?t)"
  proof (rule scan_skip)
    fix i assume i: "i < length pre"
    then have "drop i pre \<noteq> []" by simp
    moreover have "\<not> str_contains ''```'' (drop i pre)"
      using assms(2) by (rule not_contains_suffix)
    ultimately have "match_here pattern1 (drop i pre @ ''```'' @ ?t) = None"
      by (rule open_no_overlap)
    then show "match_here pattern1 (drop i (pre @ ''```'' @ ?t)) = None" using i by simp
  qed
  also have "\<dots> = Some (body, post)"
    by (rule scan_hit) (rule match_here_fenced [OF assms(1,3)])
  finally show ?thesis by (simp add: search_def)
qed

lemma extract_fenced:
  assumes "tag \<in> {''terraform'', ''hcl'', ''''}" "\<not> str_contains ''```'' pre"
    "\<not> str_contains ''\<newline>```'' body"
  shows "extract_terraform_code
           (pre @ ''```'' @ tag @ ''\<newline>'' @ body @ ''\<newline>```'' @ post)
         = Inr (str_strip body)"
  by (rule extract_first) (rule search_fenced [OF assms])

lemma no_fence_no_close: "\<not> str_contains ''```'' s \<Longrightarrow> \<not> str_contains ''\<newline>```'' s"
  unfolding str_contains_sublist
  by (metis sublist_order.order.trans sublist_append_leftI append_Cons append_Nil)


section \<open>Claims on the code-fence stripper\<close>

text \<open>
  C1, as the code has it. The response is any prose without a triple backtick, then a
  fence tagged \<^verbatim>\<open>terraform\<close> or \<^verbatim>\<open>hcl\<close>, a newline, a body in which no line starts with a
  triple backtick, a newline and the closing fence, then any text at all. The function
  returns the body with the white space at its ends removed, whatever the prose is.
\<close>

theorem fenced_body_returned:
  assumes "tag = ''terraform'' \<or> tag = ''hcl''"
    and "\<not> str_contains ''```'' prose_before"
    and "\<not> str_contains ''\<newline>```'' body"
  shows "extract_terraform_code
           (prose_before @ ''```'' @ tag @ ''\<newline>'' @ body @ ''\<newline>```'' @ prose_after)
         = Inr (str_strip body)"
proof -
  from assms(1) have "tag \<in> {''terraform'', ''hcl'', ''''}" by auto
  then show ?thesis using assms(2,3) by (rule extract_fenced)
qed

theorem fenced_body_returned_witness:
  "(''hcl'' = ''terraform'' \<or> ''hcl'' = ''hcl'')
   \<and> \<not> str_contains ''```'' ''Here:\<newline>''
   \<and> \<not> str_contains ''\<newline>```'' '' resource {} ''
   \<and> extract_terraform_code ''Here:\<newline>```hcl\<newline> resource {} \<newline>```\<newline>Thanks''
       = Inr ''resource {}''"
proof -
  have h1: "''hcl'' = ''terraform'' \<or> ''hcl'' = ''hcl''" by simp
  have h2: "\<not> str_contains ''```'' ''Here:\<newline>''" by simp
  have h3: "\<not> str_contains ''\<newline>```'' '' resource {} ''" by simp
  show ?thesis
    using h2 h3 fenced_body_returned [OF h1 h2 h3, of "''\<newline>Thanks''"]
    by (simp add: str_strip_def isspace_def)
qed

text \<open>
  C1 as stated fails for a tag that the first pattern does not list: on a fence tagged
  \<^verbatim>\<open>python\<close> only the third pattern matches, and the tag comes back with the body.
\<close>

theorem other_tag_counterexample:
  "extract_terraform_code (''```'' @ ''python'' @ ''\<newline>'' @ ''x'' @ ''\<newline>```'')
     = Inr ''python\<newline>x''
   \<and> str_strip ''x'' \<noteq> ''python\<newline>x''"
  by (simp add: extract_terraform_code_def code_patterns_def pattern1_def pattern2_def
      pattern3_def findall.simps search_def match_here_def accept_def index0_def
      str_strip_def isspace_def)

text \<open>
  C4. A response without a triple backtick comes back whole, with only white space
  removed at its two ends; and the same response wrapped in a fence gives the same value,
  so the value does not tell the caller which of the two happened.
\<close>

theorem no_fence_returns_trimmed:
  assumes "\<not> str_contains ''```'' response"
  shows "extract_terraform_code response = Inr (str_strip response)
    \<and> (\<exists>a b. response = a @ str_strip response @ b
          \<and> (\<forall>c\<in>set a. isspace c) \<and> (\<forall>c\<in>set b. isspace c))
    \<and> extract_terraform_code (''```\<newline>'' @ response @ ''\<newline>```'')
        = extract_terraform_code response"
proof -
  have 1: "extract_terraform_code response = Inr (str_strip response)"
    using assms by (simp add: extract_no_fence fence_def)
  have "\<not> str_contains ''\<newline>```'' response" using assms by (rule no_fence_no_close)
  then have "extract_terraform_code ([] @ ''```'' @ [] @ ''\<newline>'' @ response @ ''\<newline>```'' @ [])
      = Inr (str_strip response)"
    by (intro extract_fenced) simp_all
  then have 2: "extract_terraform_code (''```\<newline>'' @ response @ ''\<newline>```'')
      = Inr (str_strip response)"
    by simp
  show ?thesis using 1 2 str_strip_decomp [of response] by simp
qed

theorem no_fence_returns_trimmed_witness:
  "\<not> str_contains ''```'' ''  plain text  ''
   \<and> extract_terraform_code ''  plain text  '' = Inr ''plain text''
   \<and> extract_terraform_code ''```\<newline>  plain text  \<newline>```'' = Inr ''plain text''"
proof -
  have h: "\<not> str_contains ''```'' ''  plain text  ''" by simp
  show ?thesis
    using h no_fence_returns_trimmed [OF h]
    by (simp add: str_strip_def isspace_def)
qed

text \<open>
  C7, as the code has it. When the value returned holds no triple backtick, extracting
  from it again returns it unchanged; and the value returned for a response without a
  triple backtick holds none.
\<close>

theorem extract_again_unchanged:
  assumes "extract_terraform_code response = Inr t"
  shows "(\<not> str_contains ''```'' t \<longrightarrow> extract_terraform_code t = Inr t)
    \<and> (\<not> str_contains ''```'' response \<longrightarrow> \<not> str_contains ''```'' t)"
proof -
  have "\<exists>x. t = str_strip x"
    using assms extract_loop_cases [of code_patterns response]
    by (auto simp: extract_terraform_code_def)
  then have fixed: "str_strip t = t" by (auto simp: str_strip_idem)
  have "sublist t response"
    using assms by (auto simp: extract_terraform_code_def dest: extract_loop_sublist)
  then have "str_contains ''```'' t \<Longrightarrow> str_contains ''```'' response"
    unfolding str_contains_sublist by (rule sublist_order.order.trans[rotated])
  then show ?thesis using fixed by (auto simp: extract_no_fence fence_def)
qed

theorem extract_again_unchanged_witness:
  "extract_terraform_code ''  plain text  '' = Inr ''plain text''
   \<and> \<not> str_contains ''```'' ''plain text''
   \<and> \<not> str_contains ''```'' ''  plain text  ''
   \<and> extract_terraform_code ''plain text'' = Inr ''plain text''"
proof -
  have h: "extract_terraform_code ''  plain text  '' = Inr ''plain text''"
    by (simp add: extract_no_fence fence_def str_strip_def isspace_def)
  have n: "\<not> str_contains ''```'' ''plain text''" by simp
  show ?thesis using h n extract_again_unchanged [OF h] by simp
qed

text \<open>
  C7 as stated fails on a body that holds fences of its own: the first pass returns
  six backticks, and the second pass finds an empty fence in them.
\<close>

theorem nested_fence_counterexample:
  "extract_terraform_code ''```\<newline>``````\<newline>```'' = Inr ''``````''
   \<and> extract_terraform_code ''``````'' = Inr ''''"
  by (simp add: extract_terraform_code_def code_patterns_def pattern1_def pattern2_def
      pattern3_def findall.simps search_def match_here_def accept_def index0_def
      str_strip_def isspace_def)


section \<open>The YAML-document splitter: what it returns\<close>

lemma try_block_cases:
  "try_block safe_load m doc = Inr m
   \<or> (\<exists>k. try_block safe_load m doc = Inr (AList.update k doc m))
   \<or> (\<exists>e. try_block safe_load m doc = Inl e)"
  by (auto simp: try_block_def split: sum.splits)

lemma try_block_empty:
  "try_block safe_load m doc =
     (case try_block safe_load [] doc of
        Inl e \<Rightarrow> Inl e
      | Inr [] \<Rightarrow> Inr m
      | Inr ((k, v) # rest) \<Rightarrow> Inr (AList.update k doc m))"
  by (auto simp: try_block_def split: sum.splits)

lemma except_block_empty:
  "except_block m doc =
     (case except_block [] doc of
        Inl e \<Rightarrow> Inl e
      | Inr [] \<Rightarrow> Inr m
      | Inr ((k, v) # rest) \<Rightarrow> Inr (AList.update k doc m))"
  by (simp add: except_block_def)

lemma handle_doc_file: "handle_doc safe_load m doc = Inr (file_doc safe_load m doc)"
proof -
  have "handle_doc safe_load m doc =
      (case handle_doc safe_load [] doc of
        Inl e \<Rightarrow> Inl e
      | Inr [] \<Rightarrow> Inr m
      | Inr ((k, v) # rest) \<Rightarrow> Inr (AList.update k doc m))"
    unfolding handle_doc_def
    by (subst try_block_empty, subst except_block_empty)
      (auto simp: try_block_def except_block_def split: sum.splits)
  moreover have "handle_doc safe_load [] doc = Inr []
      \<or> (\<exists>k. handle_doc safe_load [] doc = Inr [(k, doc)])"
    unfolding handle_doc_def
    by (auto simp: try_block_def except_block_def split: sum.splits)
  ultimately show ?thesis
    by (auto simp: file_doc_def key_of_def)
qed

lemma parse_loop_fold:
  "parse_loop safe_load ds m =
     Inr (foldl (file_doc safe_load) m (filter (\<lambda>doc. doc \<noteq> []) (map str_strip ds)))"
  by (induction ds arbitrary: m) (simp_all add: handle_doc_file Let_def)

lemma parse_fold:
  "parse_k8s_manifests safe_load response =
     Inr (foldl (file_doc safe_load) [] (docs_of response))"
  by (simp add: parse_k8s_manifests_def docs_of_def parse_loop_fold)

text \<open>The dictionary after the loop: its keys, the value of each key, its values.\<close>

lemma file_doc_distinct:
  "distinct (map fst m) \<Longrightarrow> distinct (map fst (file_doc safe_load m doc))"
  by (simp add: file_doc_def distinct_update split: option.splits)

lemma fold_distinct:
  "distinct (map fst m) \<Longrightarrow> distinct (map fst (foldl (file_doc safe_load) m docs))"
  by (induction docs arbitrary: m) (simp_all add: file_doc_distinct)


lemma file_doc_keys:
  "fst ` set (file_doc safe_load m doc) =
     fst ` set m \<union> {k. key_of safe_load doc = Some k}"
  by (auto simp: file_doc_def dom_update split: option.splits)

lemma file_doc_values:
  "snd ` set (file_doc safe_load m doc) \<subseteq>
     snd ` set m \<union> {d. d = doc \<and> key_of safe_load doc \<noteq> None}"
proof (cases "key_of safe_load doc")
  case None
  then show ?thesis by (simp add: file_doc_def)
next
  case (Some k)
  have "snd ` set (AList.update k doc m) \<subseteq> insert doc (snd ` set m)"
  proof (induction m)
    case Nil
    then show ?case by simp
  next
    case (Cons e m)
    then show ?case by auto
  qed
  with Some show ?thesis by (auto simp: file_doc_def)
qed


lemma fold_keys:
  "fst ` set (foldl (file_doc safe_load) m docs) =
     fst ` set m \<union> {k. \<exists>d\<in>set docs. key_of safe_load d = Some k}"
proof (induction docs arbitrary: m)
  case Nil
  then show ?case by simp
next
  case (Cons d docs)
  have "fst ` set (foldl (file_doc safe_load) m (d # docs)) =
      fst ` set (file_doc safe_load m d) \<union> {k. \<exists>d\<in>set docs. key_of safe_load d = Some k}"
    by (simp only: foldl.simps Cons)
  then show ?case by (auto simp: file_doc_keys)
qed

lemma fold_values:
  "snd ` set (foldl (file_doc safe_load) m docs) \<subseteq>
     snd ` set m \<union> {d \<in> set docs. key_of safe_load d \<noteq> None}"
proof (induction docs arbitrary: m)
  case Nil
  then show ?case by simp
next
  case (Cons d docs)
  have "snd ` set (foldl (file_doc safe_load) m (d # docs)) \<subseteq>
      snd ` set (file_doc safe_load m d) \<union> {d \<in> set docs. key_of safe_load d \<noteq> None}"
    by (simp only: foldl.simps Cons)
  then show ?case using file_doc_values [of safe_load m d] by auto
qed


lemma fold_length:
  "length (foldl (file_doc safe_load) [] docs) =
     card {k. \<exists>d\<in>set docs. key_of safe_load d = Some k}"
proof -
  let ?M = "foldl (file_doc safe_load) [] docs"
  have "distinct (map fst ?M)" by (rule fold_distinct) simp
  then have "length ?M = card (set (map fst ?M))" by (metis distinct_card length_map)
  then show ?thesis by (simp add: fold_keys)
qed

lemma keys_card_le:
  "card {k. \<exists>d\<in>set docs. key_of safe_load d = Some k} \<le>
     length (filter (\<lambda>d. key_of safe_load d \<noteq> None) docs)"
proof -
  let ?kept = "filter (\<lambda>d. key_of safe_load d \<noteq> None) docs"
  have "{k. \<exists>d\<in>set docs. key_of safe_load d = Some k} =
      set (map (\<lambda>d. the (key_of safe_load d)) ?kept)"
    by (auto simp: image_iff) force
  then have "card {k. \<exists>d\<in>set docs. key_of safe_load d = Some k} \<le>
      length (map (\<lambda>d. the (key_of safe_load d)) ?kept)"
    by (simp only: card_length)
  then show ?thesis by simp
qed

lemma keys_card_eq:
  assumes "\<forall>d\<in>set docs. key_of safe_load d \<noteq> None" "distinct (map (key_of safe_load) docs)"
  shows "card {k. \<exists>d\<in>set docs. key_of safe_load d = Some k} = length docs"
proof -
  have "{k. \<exists>d\<in>set docs. key_of safe_load d = Some k} =
      the ` set (map (key_of safe_load) docs)"
    using assms(1) by (auto simp: image_iff) force
  moreover have "inj_on the (set (map (key_of safe_load) docs))"
    using assms(1) by (auto simp: inj_on_def) (metis option.sel)
  ultimately have "card {k. \<exists>d\<in>set docs. key_of safe_load d = Some k} =
      card (set (map (key_of safe_load) docs))"
    by (simp only: card_image)
  also have "\<dots> = length docs" using assms(2) by (metis distinct_card length_map)
  finally show ?thesis .
qed

lemma key_of_declared:
  assumes "safe_load doc = Inr (PDict kvs)" "map_of kvs (PStr ''kind'') = Some (PStr kind)"
  shows "key_of safe_load doc = Some (PStr (str_lower kind))"
proof -
  have "(PStr ''kind'', PStr kind) \<in> set kvs" using assms(2) by (rule map_of_SomeD)
  then have "kvs \<noteq> []" "PStr ''kind'' \<in> fst ` set kvs" by force+
  then show ?thesis using assms
    by (simp add: key_of_def handle_doc_def try_block_def)
qed

lemma key_of_dropped:
  assumes "declared_kind safe_load doc = None"
    and "\<not> str_contains ''Deployment'' doc" "\<not> str_contains ''Service'' doc"
    and "\<not> str_contains ''Ingress'' doc"
  shows "key_of safe_load doc = None"
  using try_block_cases [of safe_load "[]" doc] assms
  by (auto simp: key_of_def declared_kind_def handle_doc_def except_block_def)

lemma str_split_parts:
  "str_split sep s = f # fs \<Longrightarrow> prefix f s \<and> (\<forall>g\<in>set fs. sublist g s)"
proof (induction sep s arbitrary: f fs rule: str_split.induct)
  case (1 sep)
  then show ?case by simp
next
  case (2 sep c cs)
  show ?case
  proof (cases "prefix sep (c # cs)")
    case True
    let ?rest = "drop (length sep - 1) cs"
    from True 2(3) have f: "f = []" and fs: "fs = str_split sep ?rest" by simp_all
    have "\<forall>g\<in>set fs. sublist g ?rest"
    proof
      fix g assume g: "g \<in> set fs"
      obtain h hs where h: "str_split sep ?rest = h # hs"
        using g fs by (cases "str_split sep ?rest") auto
      from 2(1) [OF True h] have "prefix h ?rest" "\<forall>g\<in>set hs. sublist g ?rest" by simp_all
      with g fs h show "sublist g ?rest" by auto
    qed
    moreover have "sublist ?rest (c # cs)"
      by (meson sublist_Cons_right sublist_drop)
    ultimately have "\<forall>g\<in>set fs. sublist g (c # cs)"
      by (meson sublist_order.order.trans)
    with f show ?thesis by simp
  next
    case False
    show ?thesis
    proof (cases "str_split sep cs")
      case Nil
      with False 2(3) show ?thesis by auto
    next
      case (Cons h hs)
      from 2(2) [OF False Cons] have h: "prefix h cs" "\<forall>g\<in>set hs. sublist g cs" by simp_all
      from False Cons 2(3) have "f = c # h" "fs = hs" by simp_all
      with h show ?thesis by (auto simp: sublist_Cons_right)
    qed
  qed
qed

lemma str_split_sublist: "f \<in> set (str_split sep s) \<Longrightarrow> sublist f s"
proof -
  assume f: "f \<in> set (str_split sep s)"
  then obtain h hs where h: "str_split sep s = h # hs" by (cases "str_split sep s") auto
  from str_split_parts [OF h] f h show ?thesis by auto
qed

lemma docs_of_sublist: "doc \<in> set (docs_of response) \<Longrightarrow> sublist doc response"
proof -
  assume "doc \<in> set (docs_of response)"
  then obtain f where "f \<in> set (str_split ''---'' response)" "doc = str_strip f"
    by (auto simp: docs_of_def)
  then show ?thesis
    by (metis str_split_sublist str_strip_sublist sublist_order.order.trans)
qed

section \<open>Claims on the YAML-document splitter\<close>

text \<open>
  C2, as the code has it. The response splits at the separator into three fragments,
  none of them blank; the loader reads each as a mapping whose key \<^verbatim>\<open>kind\<close> holds a
  text, and the three kinds are still distinct once in lower case. The function returns
  three entries, in the order of the fragments: the lower-cased kind with the trimmed
  fragment.
\<close>

theorem three_kinds_three_entries:
  assumes "str_split ''---'' response = [f1, f2, f3]"
    and "str_strip f1 \<noteq> []" and "str_strip f2 \<noteq> []" and "str_strip f3 \<noteq> []"
    and "safe_load (str_strip f1) = Inr (PDict kv1)"
    and "map_of kv1 (PStr ''kind'') = Some (PStr kind1)"
    and "safe_load (str_strip f2) = Inr (PDict kv2)"
    and "map_of kv2 (PStr ''kind'') = Some (PStr kind2)"
    and "safe_load (str_strip f3) = Inr (PDict kv3)"
    and "map_of kv3 (PStr ''kind'') = Some (PStr kind3)"
    and "distinct [str_lower kind1, str_lower kind2, str_lower kind3]"
  shows "parse_k8s_manifests safe_load response =
     Inr [(PStr (str_lower kind1), str_strip f1),
          (PStr (str_lower kind2), str_strip f2),
          (PStr (str_lower kind3), str_strip f3)]"
proof -
  have docs: "docs_of response = [str_strip f1, str_strip f2, str_strip f3]"
    using assms(1-4) by (simp add: docs_of_def)
  have k1: "key_of safe_load (str_strip f1) = Some (PStr (str_lower kind1))"
    using assms(5,6) by (rule key_of_declared)
  have k2: "key_of safe_load (str_strip f2) = Some (PStr (str_lower kind2))"
    using assms(7,8) by (rule key_of_declared)
  have k3: "key_of safe_load (str_strip f3) = Some (PStr (str_lower kind3))"
    using assms(9,10) by (rule key_of_declared)
  show ?thesis using assms(11) by (simp add: parse_fold docs file_doc_def k1 k2 k3)
qed

theorem three_kinds_three_entries_witness:
  "str_split ''---'' ''kind: Deployment\<newline>---\<newline>kind: Service\<newline>---\<newline>kind: Ingress\<newline>''
     = [''kind: Deployment\<newline>'', ''\<newline>kind: Service\<newline>'', ''\<newline>kind: Ingress\<newline>'']
   \<and> distinct [str_lower ''Deployment'', str_lower ''Service'', str_lower ''Ingress'']
   \<and> parse_k8s_manifests sample_load
        ''kind: Deployment\<newline>---\<newline>kind: Service\<newline>---\<newline>kind: Ingress\<newline>''
     = Inr [(PStr ''deployment'', ''kind: Deployment''),
            (PStr ''service'', ''kind: Service''),
            (PStr ''ingress'', ''kind: Ingress'')]"
proof -
  let ?r = "''kind: Deployment\<newline>---\<newline>kind: Service\<newline>---\<newline>kind: Ingress\<newline>''"
  have s: "str_split ''---'' ?r =
      [''kind: Deployment\<newline>'', ''\<newline>kind: Service\<newline>'', ''\<newline>kind: Ingress\<newline>'']"
    by simp
  have t1: "str_strip ''kind: Deployment\<newline>'' = ''kind: Deployment''"
    and t2: "str_strip ''\<newline>kind: Service\<newline>'' = ''kind: Service''"
    and t3: "str_strip ''\<newline>kind: Ingress\<newline>'' = ''kind: Ingress''"
    by (simp_all add: str_strip_def isspace_def)
  have n1: "str_strip ''kind: Deployment\<newline>'' \<noteq> []"
    and n2: "str_strip ''\<newline>kind: Service\<newline>'' \<noteq> []"
    and n3: "str_strip ''\<newline>kind: Ingress\<newline>'' \<noteq> []"
    by (simp_all add: t1 t2 t3)
  have l1: "sample_load (str_strip ''kind: Deployment\<newline>'')
      = Inr (PDict [(PStr ''kind'', PStr ''Deployment'')])"
    and l2: "sample_load (str_strip ''\<newline>kind: Service\<newline>'')
      = Inr (PDict [(PStr ''kind'', PStr ''Service'')])"
    and l3: "sample_load (str_strip ''\<newline>kind: Ingress\<newline>'')
      = Inr (PDict [(PStr ''kind'', PStr ''Ingress'')])"
    by (simp_all add: t1 t2 t3 sample_load_def)
  have m1: "map_of [(PStr ''kind'', PStr ''Deployment'')] (PStr ''kind'') = Some (PStr ''Deployment'')"
    and m2: "map_of [(PStr ''kind'', PStr ''Service'')] (PStr ''kind'') = Some (PStr ''Service'')"
    and m3: "map_of [(PStr ''kind'', PStr ''Ingress'')] (PStr ''kind'') = Some (PStr ''Ingress'')"
    by simp_all
  have low: "str_lower ''Deployment'' = ''deployment''" "str_lower ''Service'' = ''service''"
    "str_lower ''Ingress'' = ''ingress''"
    by code_simp+
  have d: "distinct [str_lower ''Deployment'', str_lower ''Service'', str_lower ''Ingress'']"
    by (simp add: low)
  show ?thesis
    using s d three_kinds_three_entries [OF s n1 n2 n3 l1 m1 l2 m2 l3 m3 d]
    by (simp add: t1 t2 t3 low)
qed

text \<open>
  C2 as stated fails when two of the distinct kinds differ in case only: both go under
  one key, and the dictionary has two entries.
\<close>

theorem case_variant_kinds_counterexample:
  "str_split ''---'' ''kind: Service---kind: SERVICE---kind: Ingress''
     = [''kind: Service'', ''kind: SERVICE'', ''kind: Ingress'']
   \<and> distinct [''Service'', ''SERVICE'', ''Ingress'']
   \<and> parse_k8s_manifests sample_load ''kind: Service---kind: SERVICE---kind: Ingress''
     = Inr [(PStr ''service'', ''kind: SERVICE''), (PStr ''ingress'', ''kind: Ingress'')]"
  by code_simp

text \<open>
  C3, as the code has it. A fragment that the \<^verbatim>\<open>try\<close> block does not file and that
  holds none of the three marker words adds no entry: the function returns a dictionary
  and raises nothing, no value of the dictionary is that fragment, and the dictionary
  has at most as many entries as there are non-empty fragments less one; it has exactly
  that many when every other non-empty fragment is filed under a key of its own.
\<close>

theorem unrecognised_fragment_dropped:
  assumes "docs_of response = before @ doc # after"
    and "declared_kind safe_load doc = None"
    and "\<not> str_contains ''Deployment'' doc"
    and "\<not> str_contains ''Service'' doc"
    and "\<not> str_contains ''Ingress'' doc"
  shows "\<exists>m. parse_k8s_manifests safe_load response = Inr m
    \<and> doc \<notin> snd ` set m
    \<and> length m \<le> length (docs_of response) - 1
    \<and> ((\<forall>d\<in>set (before @ after). key_of safe_load d \<noteq> None)
         \<and> distinct (map (key_of safe_load) (before @ after))
        \<longrightarrow> length m = length (docs_of response) - 1)"
proof -
  let ?m = "foldl (file_doc safe_load) [] (docs_of response)"
  let ?others = "before @ after"
  have none: "key_of safe_load doc = None" using assms(2-5) by (rule key_of_dropped)
  have same: "?m = foldl (file_doc safe_load) [] ?others"
    by (simp add: assms(1) file_doc_def none)
  have "snd ` set ?m \<subseteq> {d \<in> set (docs_of response). key_of safe_load d \<noteq> None}"
    using fold_values [of safe_load "[]" "docs_of response"] by simp
  then have absent: "doc \<notin> snd ` set ?m" using none by auto
  have len: "length ?m = card {k. \<exists>d\<in>set ?others. key_of safe_load d = Some k}"
    by (simp only: same fold_length)
  have "length ?m \<le> length (filter (\<lambda>d. key_of safe_load d \<noteq> None) ?others)"
    unfolding len by (rule keys_card_le)
  also have "\<dots> \<le> length ?others" by (rule length_filter_le)
  also have "\<dots> = length (docs_of response) - 1" by (simp add: assms(1))
  finally have le: "length ?m \<le> length (docs_of response) - 1" .
  have eq: "length ?m = length (docs_of response) - 1"
    if "\<forall>d\<in>set ?others. key_of safe_load d \<noteq> None"
      and "distinct (map (key_of safe_load) ?others)"
  proof -
    have "length ?m = length ?others" unfolding len using that by (rule keys_card_eq)
    then show ?thesis by (simp add: assms(1))
  qed
  show ?thesis using absent le eq by (auto simp: parse_fold)
qed

theorem unrecognised_fragment_dropped_witness:
  "docs_of ''kind: Deployment---x---kind: Service'' = [''kind: Deployment''] @ ''x'' # [''kind: Service'']
   \<and> declared_kind sample_load ''x'' = None
   \<and> \<not> str_contains ''Deployment'' ''x''
   \<and> \<not> str_contains ''Service'' ''x''
   \<and> \<not> str_contains ''Ingress'' ''x''
   \<and> parse_k8s_manifests sample_load ''kind: Deployment---x---kind: Service''
       = Inr [(PStr ''deployment'', ''kind: Deployment''), (PStr ''service'', ''kind: Service'')]
   \<and> length (docs_of ''kind: Deployment---x---kind: Service'') - 1 = 2"
proof -
  have d: "docs_of ''kind: Deployment---x---kind: Service''
      = [''kind: Deployment''] @ ''x'' # [''kind: Service'']"
    by code_simp
  have k: "declared_kind sample_load ''x'' = None" by code_simp
  have n1: "\<not> str_contains ''Deployment'' ''x''" by simp
  have n2: "\<not> str_contains ''Service'' ''x''" by simp
  have n3: "\<not> str_contains ''Ingress'' ''x''" by simp
  have r: "parse_k8s_manifests sample_load ''kind: Deployment---x---kind: Service''
       = Inr [(PStr ''deployment'', ''kind: Deployment''), (PStr ''service'', ''kind: Service'')]"
    by code_simp
  show ?thesis
    using d k r unrecognised_fragment_dropped [OF d k n1 n2 n3] by simp
qed

text \<open>
  C3 as stated fails when another fragment is left out as well: of three non-empty
  fragments one entry remains, not two.
\<close>

theorem two_dropped_counterexample:
  "docs_of ''x---y---kind: Service'' = [''x'', ''y'', ''kind: Service'']
   \<and> declared_kind sample_load ''x'' = None
   \<and> \<not> str_contains ''Deployment'' ''x''
   \<and> \<not> str_contains ''Service'' ''x''
   \<and> \<not> str_contains ''Ingress'' ''x''
   \<and> parse_k8s_manifests sample_load ''x---y---kind: Service''
       = Inr [(PStr ''service'', ''kind: Service'')]"
  by code_simp



text \<open>
  C6. The two extractors return a value on every response, the empty one too: the
  index \<^verbatim>\<open>matches[0]\<close> is only taken on a list that is not empty, and whatever the
  \<^verbatim>\<open>try\<close> block raises is caught.
\<close>

theorem extractors_total:
  "(\<exists>t. extract_terraform_code response = Inr t)
   \<and> (\<exists>m. parse_k8s_manifests safe_load response = Inr m)
   \<and> extract_terraform_code [] = Inr []
   \<and> parse_k8s_manifests safe_load [] = Inr []"
proof -
  have "\<exists>t. extract_terraform_code response = Inr t"
    unfolding extract_terraform_code_def by (rule extract_loop_total)
  moreover have "extract_terraform_code [] = Inr []"
    by (simp add: extract_no_fence fence_def str_strip_def)
  moreover have "parse_k8s_manifests safe_load [] = Inr []"
    by (simp add: parse_k8s_manifests_def str_strip_def)
  ultimately show ?thesis by (simp add: parse_fold)
qed

text \<open>
  C8. What the code-fence stripper returns is a stretch of its response, and every value
  of the dictionary of the splitter is a stretch of its response.
\<close>

theorem outputs_are_stretches_of_the_response:
  "(\<exists>t. extract_terraform_code response = Inr t \<and> sublist t response)
   \<and> (\<exists>m. parse_k8s_manifests safe_load response = Inr m
         \<and> (\<forall>v\<in>snd ` set m. sublist v response))"
proof (intro conjI)
  obtain t where t: "extract_terraform_code response = Inr t"
    unfolding extract_terraform_code_def using extract_loop_total by blast
  then have "sublist t response"
    unfolding extract_terraform_code_def by (rule extract_loop_sublist)
  with t show "\<exists>t. extract_terraform_code response = Inr t \<and> sublist t response"
    by blast
next
  let ?m = "foldl (file_doc safe_load) [] (docs_of response)"
  have "\<forall>v\<in>snd ` set ?m. sublist v response"
  proof
    fix v assume "v \<in> snd ` set ?m"
    moreover have "snd ` set ?m \<subseteq>
        snd ` set ([] :: manifests) \<union>
        {d \<in> set (docs_of response). key_of safe_load d \<noteq> None}"
      by (rule fold_values)
    ultimately have "v \<in> set (docs_of response)" by auto
    then show "sublist v response" by (rule docs_of_sublist)
  qed
  moreover have "parse_k8s_manifests safe_load response = Inr ?m" by (rule parse_fold)
  ultimately show "\<exists>m. parse_k8s_manifests safe_load response = Inr m
      \<and> (\<forall>v\<in>snd ` set m. sublist v response)"
    by blast
qed

theorem outputs_are_stretches_of_the_response_witness:
  "extract_terraform_code ''kind: Deployment---x---kind: Service''
     = Inr ''kind: Deployment---x---kind: Service''
   \<and> parse_k8s_manifests sample_load ''kind: Deployment---x---kind: Service''
     = Inr [(PStr ''deployment'', ''kind: Deployment''), (PStr ''service'', ''kind: Service'')]
   \<and> sublist ''kind: Deployment'' ''kind: Deployment---x---kind: Service''
   \<and> sublist ''kind: Service'' ''kind: Deployment---x---kind: Service''"
proof -
  have e: "extract_terraform_code ''kind: Deployment---x---kind: Service''
      = Inr ''kind: Deployment---x---kind: Service''"
    by code_simp
  have r: "parse_k8s_manifests sample_load ''kind: Deployment---x---kind: Service''
      = Inr [(PStr ''deployment'', ''kind: Deployment''), (PStr ''service'', ''kind: Service'')]"
    by code_simp
  show ?thesis
    using e r outputs_are_stretches_of_the_response
      [of "''kind: Deployment---x---kind: Service''" sample_load]
    by simp
qed

text \<open>
  C10, as the code has it. The marker words are looked for only when the \<^verbatim>\<open>try\<close> block
  raised, and then always. A fragment that the loader reads as a value on which the test
  for \<^verbatim>\<open>kind\<close> is false and raises nothing leaves the dictionary as it was, whatever
  words the fragment holds.
\<close>

theorem fallback_only_after_exception:
  "(\<forall>m'. try_block safe_load m doc = Inr m' \<longrightarrow> handle_doc safe_load m doc = Inr m')
   \<and> (\<forall>e. try_block safe_load m doc = Inl e \<longrightarrow>
          handle_doc safe_load m doc = except_block m doc)
   \<and> (\<forall>y. safe_load doc = Inr y \<and> quiet_without_kind y \<longrightarrow>
          handle_doc safe_load m doc = Inr m)"
proof -
  have "handle_doc safe_load m doc = Inr m" if "safe_load doc = Inr y" "quiet_without_kind y" for y
    using that by (cases y) (auto simp: handle_doc_def try_block_def)
  then show ?thesis by (auto simp: handle_doc_def)
qed

theorem fallback_only_after_exception_witness:
  "sample_load ''x Deployment'' = Inr (PStr ''x Deployment'')
   \<and> quiet_without_kind (PStr ''x Deployment'')
   \<and> str_contains ''Deployment'' ''x Deployment''
   \<and> try_block sample_load [] ''x Deployment'' = Inr []
   \<and> handle_doc sample_load [] ''x Deployment'' = Inr []
   \<and> try_block sample_load [] ''kind of Deployment'' = Inl TypeError
   \<and> handle_doc sample_load [] ''kind of Deployment'' = except_block [] ''kind of Deployment''"
proof -
  have l: "sample_load ''x Deployment'' = Inr (PStr ''x Deployment'')" by code_simp
  have q: "quiet_without_kind (PStr ''x Deployment'')" by code_simp
  have c: "str_contains ''Deployment'' ''x Deployment''" by code_simp
  have t: "try_block sample_load [] ''x Deployment'' = Inr []" by code_simp
  have e: "try_block sample_load [] ''kind of Deployment'' = Inl TypeError" by code_simp
  show ?thesis
    using l q c t e fallback_only_after_exception [of sample_load "[]" "''x Deployment''"]
      fallback_only_after_exception [of sample_load "[]" "''kind of Deployment''"]
    by simp
qed

text \<open>
  C10 as stated fails on a plain scalar that holds the word \<^verbatim>\<open>kind\<close>: the test
  \<^verbatim>\<open>'kind' in yaml_doc\<close> is then true, the subscript raises TypeError, and the marker word
  files the fragment.
\<close>

theorem scalar_with_kind_counterexample:
  "sample_load ''kind of Deployment'' = Inr (PStr ''kind of Deployment'')
   \<and> parse_k8s_manifests sample_load ''kind of Deployment''
       = Inr [(PStr ''deployment'', ''kind of Deployment'')]"
  by code_simp


section \<open>The orchestrator: the calls of a run\<close>

lemma stops_left:
  assumes "stops endpoint system n ps (Inl e) k"
  shows "stops endpoint system n (ps @ qs) (Inl e) k"
proof -
  from assms have k: "k \<le> length ps" by (simp add: stops_def)
  have nth: "(ps @ qs) ! j = ps ! j" if "j < k" for j
    using that k by (simp add: nth_append)
  have a: "\<forall>j<k. \<forall>e'. endpoint (n + j) ((ps @ qs) ! j) = Inl e' \<longrightarrow>
      Suc j = k \<and> (Inl e :: exn + 'b) = Inl e'"
  proof (intro allI impI)
    fix j e' assume j: "j < k" and f: "endpoint (n + j) ((ps @ qs) ! j) = Inl e'"
    from f j have "endpoint (n + j) (ps ! j) = Inl e'" by (simp add: nth)
    with assms j have "Suc j = k \<and> (Inl e :: exn + 'a) = Inl e'"
      unfolding stops_def by blast
    then show "Suc j = k \<and> (Inl e :: exn + 'b) = Inl e'" by simp
  qed
  have b: "0 < k \<and> endpoint (n + (k - 1)) ((ps @ qs) ! (k - 1)) = Inl e'"
    if q: "\<forall>w op. system w op = None" and r: "(Inl e :: exn + 'b) = Inl e'" for e'
  proof -
    from r have "(Inl e :: exn + 'a) = Inl e'" by simp
    with assms q have s: "0 < k" "endpoint (n + (k - 1)) (ps ! (k - 1)) = Inl e'"
      unfolding stops_def by blast+
    then have "k - 1 < k" by simp
    then have "(ps @ qs) ! (k - 1) = ps ! (k - 1)" by (rule nth)
    with s show ?thesis by simp
  qed
  show ?thesis unfolding stops_def
  proof (intro conjI)
    show "k \<le> length (ps @ qs)" using k by simp
    show "\<forall>j<k. \<forall>e'. endpoint (n + j) ((ps @ qs) ! j) = Inl e' \<longrightarrow>
        Suc j = k \<and> (Inl e :: exn + 'b) = Inl e'"
      by (rule a)
    show "(\<exists>x. (Inl e :: exn + 'b) = Inr x) \<longrightarrow> k = length (ps @ qs)" by simp
    show "(\<forall>w op. system w op = None) \<longrightarrow>
        (\<forall>e'. (Inl e :: exn + 'b) = Inl e' \<longrightarrow>
          0 < k \<and> endpoint (n + (k - 1)) ((ps @ qs) ! (k - 1)) = Inl e')"
      using b by blast
  qed
qed

lemma stops_right:
  assumes "stops endpoint system n ps (Inr x) (length ps)"
    and "stops endpoint system (n + length ps) qs r k"
  shows "stops endpoint system n (ps @ qs) r (length ps + k)"
proof -
  from assms(2) have k: "k \<le> length qs" by (simp add: stops_def)
  have early: "\<forall>j<length ps. \<forall>e. endpoint (n + j) (ps ! j) \<noteq> Inl e"
  proof (intro allI impI notI)
    fix j e assume "j < length ps" "endpoint (n + j) (ps ! j) = Inl e"
    with assms(1) have "(Inr x :: exn + 'a) = Inl e" unfolding stops_def by blast
    then show False by simp
  qed
  have a: "\<forall>j<length ps + k. \<forall>e. endpoint (n + j) ((ps @ qs) ! j) = Inl e \<longrightarrow>
      Suc j = length ps + k \<and> r = Inl e"
  proof (intro allI impI)
    fix j e assume j: "j < length ps + k" and f: "endpoint (n + j) ((ps @ qs) ! j) = Inl e"
    show "Suc j = length ps + k \<and> r = Inl e"
    proof (cases "j < length ps")
      case True
      with f have "endpoint (n + j) (ps ! j) = Inl e" by (simp add: nth_append)
      with early True show ?thesis by blast
    next
      case False
      define j' where "j' = j - length ps"
      have j': "j = length ps + j'" "j' < k" using False j by (simp_all add: j'_def)
      from f j'(1) have "endpoint (n + length ps + j') (qs ! j') = Inl e"
        by (simp add: nth_append add.assoc)
      with assms(2) j'(2) have "Suc j' = k \<and> r = Inl e" unfolding stops_def by blast
      with j'(1) show ?thesis by simp
    qed
  qed
  have b: "k = length qs" if "\<exists>y. r = Inr y"
    using assms(2) that unfolding stops_def by blast
  have c: "0 < length ps + k \<and>
      endpoint (n + (length ps + k - 1)) ((ps @ qs) ! (length ps + k - 1)) = Inl e"
    if q: "\<forall>w op. system w op = None" and r: "r = Inl e" for e
  proof -
    from assms(2) q r have s: "0 < k" "endpoint (n + length ps + (k - 1)) (qs ! (k - 1)) = Inl e"
      unfolding stops_def by blast+
    from s(1) have i: "length ps + k - 1 = length ps + (k - 1)" by simp
    have "(ps @ qs) ! (length ps + (k - 1)) = qs ! (k - 1)" by (rule nth_append_length_plus)
    moreover have "n + (length ps + (k - 1)) = n + length ps + (k - 1)" by simp
    ultimately have "endpoint (n + (length ps + (k - 1))) ((ps @ qs) ! (length ps + (k - 1)))
        = Inl e"
      using s(2) by (simp only:)
    then have "endpoint (n + (length ps + k - 1)) ((ps @ qs) ! (length ps + k - 1)) = Inl e"
      by (simp only: i)
    moreover have "0 < length ps + k" using s(1) by simp
    ultimately show ?thesis by (rule conjI [rotated])
  qed
  show ?thesis unfolding stops_def
  proof (intro conjI)
    show "length ps + k \<le> length (ps @ qs)" using k by simp
    show "\<forall>j<length ps + k. \<forall>e. endpoint (n + j) ((ps @ qs) ! j) = Inl e \<longrightarrow>
        Suc j = length ps + k \<and> r = Inl e"
      by (rule a)
    show "(\<exists>x. r = Inr x) \<longrightarrow> length ps + k = length (ps @ qs)" using b by auto
    show "(\<forall>w op. system w op = None) \<longrightarrow>
        (\<forall>e. r = Inl e \<longrightarrow> 0 < length ps + k \<and>
          endpoint (n + (length ps + k - 1)) ((ps @ qs) ! (length ps + k - 1)) = Inl e)"
      using c by blast
  qed
qed

lemma stops_value: "stops endpoint system n ps (Inr x) k \<Longrightarrow> k = length ps"
  unfolding stops_def by blast

lemma sends_bind:
  assumes "sends endpoint system ps m" and "\<And>x. sends endpoint system qs (f x)"
  shows "sends endpoint system (ps @ qs) (io_bind m f)"
  unfolding sends_def
proof
  fix w :: world
  let ?n = "length (calls w)"
  from assms(1) obtain k where k: "stops endpoint system ?n ps (fst (m w)) k"
    "calls (snd (m w)) = calls w @ take k ps"
    unfolding sends_def by blast
  show "\<exists>k. stops endpoint system ?n (ps @ qs) (fst (io_bind m f w)) k
      \<and> calls (snd (io_bind m f w)) = calls w @ take k (ps @ qs)"
  proof (cases "fst (m w)")
    case (Inl e)
    then have b: "io_bind m f w = (Inl e, snd (m w))"
      by (cases "m w") (simp add: io_bind_def)
    from k(1) Inl have "stops endpoint system ?n (ps @ qs) (Inl e :: exn + 'b) k"
      by (simp add: stops_left)
    moreover have "k \<le> length ps" using k(1) by (simp add: stops_def)
    ultimately show ?thesis using b k(2) by auto
  next
    case (Inr x)
    then have b: "io_bind m f w = f x (snd (m w))"
      by (cases "m w") (simp add: io_bind_def)
    let ?w = "snd (m w)"
    from k(1) Inr have kl: "k = length ps" by (simp add: stops_value)
    with k(2) have c: "calls ?w = calls w @ ps" by simp
    then have n: "length (calls ?w) = ?n + length ps" by simp
    from assms(2) [of x] obtain k' where k':
      "stops endpoint system (length (calls ?w)) qs (fst (f x ?w)) k'"
      "calls (snd (f x ?w)) = calls ?w @ take k' qs"
      unfolding sends_def by blast
    from k(1) Inr kl have "stops endpoint system ?n ps (Inr x :: exn + 'a) (length ps)"
      by simp
    moreover from k'(1) n have "stops endpoint system (?n + length ps) qs (fst (f x ?w)) k'"
      by simp
    ultimately have "stops endpoint system ?n (ps @ qs) (fst (f x ?w)) (length ps + k')"
      by (rule stops_right)
    moreover have "calls (snd (f x ?w)) = calls w @ take (length ps + k') (ps @ qs)"
      using k'(2) c by simp
    ultimately show ?thesis using b by auto
  qed
qed

lemma sends_log:
  assumes "sends endpoint system ps m"
  shows "sends endpoint system ps (log_and_reraise msg m)"
proof -
  have a: "fst (log_and_reraise msg m w) = fst (m w)" for w
    by (cases "m w") (auto simp: log_and_reraise_def split: sum.splits)
  have b: "calls (snd (log_and_reraise msg m w)) = calls (snd (m w))" for w
    by (cases "m w") (auto simp: log_and_reraise_def split: sum.splits)
  from assms show ?thesis unfolding sends_def a b .
qed

lemma sends_nothing:
  assumes "\<And>w. calls (snd (m w)) = calls w"
    and "\<And>w e. \<forall>w' op. system w' op = None \<Longrightarrow> fst (m w) \<noteq> Inl e"
  shows "sends endpoint system [] m"
  unfolding sends_def
proof
  fix w :: world
  have "stops endpoint system (length (calls w)) [] (fst (m w)) 0"
    unfolding stops_def using assms(2) [of w] by auto
  then show "\<exists>k. stops endpoint system (length (calls w)) [] (fst (m w)) k
      \<and> calls (snd (m w)) = calls w @ take k []"
    using assms(1) [of w] by auto
qed

lemma sends_return: "sends endpoint system [] (io_return (Inr x))"
  by (rule sends_nothing) (simp_all add: io_return_def)

lemma sends_write_file: "sends endpoint system [] (write_file system path content)"
  by (rule sends_nothing) (auto simp: write_file_def split: option.splits)

lemma sends_chmod: "sends endpoint system [] (chmod_755 system path)"
  by (rule sends_nothing) (auto simp: chmod_755_def split: option.splits)

lemma sends_summary: "sends endpoint system [] (print_completion_summary system)"
  by (rule sends_nothing) (auto simp: print_completion_summary_def split: option.splits)

lemma sends_extract: "sends endpoint system [] (io_return (extract_loop ps response))"
proof -
  obtain t where "extract_loop ps response = Inr t" using extract_loop_total by blast
  then show ?thesis by (simp add: sends_return)
qed

lemma sends_parse:
  "sends endpoint system [] (io_return (parse_k8s_manifests safe_load response))"
  by (simp add: parse_fold sends_return)

lemma sends_call: "sends endpoint system [p] (call_gemini_api endpoint p)"
proof -
  have "sends endpoint system [p] (generate_content endpoint p)"
    unfolding sends_def
  proof
    fix w :: world
    have "stops endpoint system (length (calls w)) [p] (endpoint (length (calls w)) p) 1"
      unfolding stops_def by auto
    then show "\<exists>k. stops endpoint system (length (calls w)) [p]
        (fst (generate_content endpoint p w)) k
        \<and> calls (snd (generate_content endpoint p w)) = calls w @ take k [p]"
      by (auto simp: generate_content_def intro!: exI [of _ 1])
  qed
  then show ?thesis unfolding call_gemini_api_def by (rule sends_log)
qed

lemma sends_save_manifests: "sends endpoint system [] (save_manifests system m)"
proof (induction m)
  case Nil
  then show ?case by (simp add: sends_return)
next
  case (Cons item m)
  obtain name content where item: "item = (name, content)" by (cases item)
  have "sends endpoint system ([] @ [])
      (io_bind (write_file system (ManifestFile name) content) (\<lambda>_. save_manifests system m))"
    by (intro sends_bind sends_write_file Cons)
  with item show ?case by simp
qed

lemma sends_save_scripts: "sends endpoint system [] (save_scripts system items)"
proof (induction items)
  case Nil
  then show ?case by (simp add: sends_return)
next
  case (Cons item items)
  obtain name content where item: "item = (name, content)" by (cases item)
  have "sends endpoint system ([] @ [] @ [])
      (io_bind (write_file system (Path (''scripts/'' @ name @ ''.sh'')) content) (\<lambda>_.
       io_bind (chmod_755 system (''scripts/'' @ name @ ''.sh'')) (\<lambda>_.
       save_scripts system items)))"
    by (intro sends_bind sends_write_file sends_chmod Cons)
  with item show ?case by simp
qed

lemmas sends_rules =
  sends_log sends_bind sends_call sends_return sends_write_file sends_summary
  sends_extract [where ps = code_patterns, folded extract_terraform_code_def]
  sends_extract [where ps = yaml_patterns, folded extract_yaml_content_def]
  sends_extract [where ps = dockerfile_patterns, folded extract_dockerfile_content_def]
  sends_extract [where ps = script_patterns, folded extract_script_content_def]
  sends_parse sends_save_manifests sends_save_scripts

lemma sends_terraform_main:
  "sends endpoint system [Prompt1, Prompt2] (generate_complete_terraform_main endpoint system)"
proof -
  have "sends endpoint system ([Prompt1] @ [] @ [] @ [Prompt2] @ [] @ [] @ [])
      (generate_complete_terraform_main endpoint system)"
    unfolding generate_complete_terraform_main_def by (intro sends_rules)
  then show ?thesis by simp
qed

lemma sends_variables:
  "sends endpoint system [VariablesPrompt] (generate_terraform_variables endpoint system)"
proof -
  have "sends endpoint system ([VariablesPrompt] @ [] @ [] @ [])
      (generate_terraform_variables endpoint system)"
    unfolding generate_terraform_variables_def by (intro sends_rules)
  then show ?thesis by simp
qed

lemma sends_manifests:
  "sends endpoint system [ManifestsPrompt]
     (generate_kubernetes_manifests endpoint safe_load system)"
proof -
  have "sends endpoint system ([ManifestsPrompt] @ [] @ [] @ [])
      (generate_kubernetes_manifests endpoint safe_load system)"
    unfolding generate_kubernetes_manifests_def by (intro sends_rules)
  then show ?thesis by simp
qed

lemma sends_workflow:
  "sends endpoint system [WorkflowPrompt] (generate_github_actions_workflow endpoint system)"
proof -
  have "sends endpoint system ([WorkflowPrompt] @ [] @ [] @ [])
      (generate_github_actions_workflow endpoint system)"
    unfolding generate_github_actions_workflow_def by (intro sends_rules)
  then show ?thesis by simp
qed

lemma sends_dockerfile:
  "sends endpoint system [DockerfilePrompt] (generate_dockerfile endpoint system)"
proof -
  have "sends endpoint system ([DockerfilePrompt] @ [] @ [] @ [])
      (generate_dockerfile endpoint system)"
    unfolding generate_dockerfile_def by (intro sends_rules)
  then show ?thesis by simp
qed

lemma sends_scripts:
  "sends endpoint system [SetupPrompt, DeployPrompt]
     (generate_deployment_scripts endpoint system)"
proof -
  have "sends endpoint system ([SetupPrompt] @ [] @ [DeployPrompt] @ [] @ [] @ [])
      (generate_deployment_scripts endpoint system)"
    unfolding generate_deployment_scripts_def by (intro sends_rules)
  then show ?thesis by simp
qed

lemma sends_pipeline:
  "sends endpoint system pipeline_prompts (run_full_pipeline endpoint safe_load system)"
proof -
  have "sends endpoint system
      ([Prompt1, Prompt2] @ [VariablesPrompt] @ [ManifestsPrompt] @ [WorkflowPrompt] @
       [DockerfilePrompt] @ [SetupPrompt, DeployPrompt] @ [])
      (run_full_pipeline endpoint safe_load system)"
    unfolding run_full_pipeline_def
    by (intro sends_log sends_bind sends_terraform_main sends_variables sends_manifests
        sends_workflow sends_dockerfile sends_scripts sends_summary)
  then show ?thesis by (simp add: pipeline_prompts_def)
qed

text \<open>
  When no operation of the system raises, the run stops at the first call that fails.
\<close>

lemma stops_failed_call:
  assumes "stops endpoint system n ps r k" and "j < k" and "endpoint (n + j) (ps ! j) = Inl e"
  shows "Suc j = k \<and> r = Inl e"
proof -
  from assms(1) have "\<forall>j<k. \<forall>e. endpoint (n + j) (ps ! j) = Inl e \<longrightarrow> Suc j = k \<and> r = Inl e"
    unfolding stops_def by (elim conjE)
  with assms(2,3) show ?thesis by blast
qed

lemma stops_quiet:
  assumes "stops endpoint system n ps r k" and "\<forall>w op. system w op = None" and "r = Inl e"
  shows "0 < k \<and> endpoint (n + (k - 1)) (ps ! (k - 1)) = Inl e"
proof -
  from assms(1) have "(\<forall>w op. system w op = None) \<longrightarrow>
      (\<forall>e. r = Inl e \<longrightarrow> 0 < k \<and> endpoint (n + (k - 1)) (ps ! (k - 1)) = Inl e)"
    unfolding stops_def by (elim conjE)
  with assms(2,3) show ?thesis by blast
qed

lemma stops_at_first_failure:
  assumes "stops endpoint system n ps r k"
    and "\<forall>w op. system w op = None"
    and "i < length ps"
    and "\<forall>j<i. \<exists>reply. endpoint (n + j) (ps ! j) = Inr reply"
    and "endpoint (n + i) (ps ! i) = Inl e"
  shows "k = Suc i \<and> r = Inl e"
proof -
  have "i < k"
  proof (cases r)
    case (Inr x)
    with assms(1) have "k = length ps" by (simp add: stops_value)
    with assms(3) show ?thesis by simp
  next
    case (Inl e')
    with assms(1,2) have last: "0 < k \<and> endpoint (n + (k - 1)) (ps ! (k - 1)) = Inl e'"
      by (rule stops_quiet)
    have "\<not> k - 1 < i"
    proof
      assume "k - 1 < i"
      with assms(4) obtain reply where "endpoint (n + (k - 1)) (ps ! (k - 1)) = Inr reply"
        by blast
      moreover from last have "endpoint (n + (k - 1)) (ps ! (k - 1)) = Inl e'"
        by (rule conjunct2)
      ultimately have "(Inr reply :: exn + string) = Inl e'" by (simp only:)
      then show False by simp
    qed
    moreover from last have "0 < k" by (rule conjunct1)
    ultimately show ?thesis by arith
  qed
  with assms(1) have "Suc i = k \<and> r = Inl e" using assms(5) by (rule stops_failed_call)
  then show ?thesis by simp
qed

section \<open>Claim on the orchestrator\<close>

text \<open>
  C9. In every run, whatever the endpoint, the loader and the system do, the prompts
  sent are the first \<open>k\<close> of the fixed sequence, each once; and a call of the run that
  raised is the last call of the run, and the run ends with the exception of that call,
  the same one: the call is not repeated and no later call is made. When moreover no
  operation of the system raises, the calls before position \<open>i\<close> of the sequence return
  a text and the call at position \<open>i\<close> raises \<open>e\<close>, the run makes exactly the calls
  up to position \<open>i\<close> and ends with \<open>e\<close>.
\<close>

theorem generation_failure_aborts_run:
  "\<exists>k\<le>length pipeline_prompts.
      calls (snd (run_full_pipeline endpoint safe_load system w))
        = calls w @ take k pipeline_prompts
    \<and> distinct (take k pipeline_prompts)
    \<and> (\<forall>j<k. \<forall>e. endpoint (length (calls w) + j) (pipeline_prompts ! j) = Inl e \<longrightarrow>
          Suc j = k \<and> fst (run_full_pipeline endpoint safe_load system w) = Inl e)
    \<and> ((\<forall>w' op. system w' op = None) \<longrightarrow>
         (\<forall>i e. i < length pipeline_prompts
            \<and> (\<forall>j<i. \<exists>reply.
                  endpoint (length (calls w) + j) (pipeline_prompts ! j) = Inr reply)
            \<and> endpoint (length (calls w) + i) (pipeline_prompts ! i) = Inl e
          \<longrightarrow> k = Suc i \<and> fst (run_full_pipeline endpoint safe_load system w) = Inl e))"
proof -
  let ?run = "run_full_pipeline endpoint safe_load system w"
  let ?n = "length (calls w)"
  have "sends endpoint system pipeline_prompts (run_full_pipeline endpoint safe_load system)"
    by (rule sends_pipeline)
  then obtain k where k: "stops endpoint system ?n pipeline_prompts (fst ?run) k"
    and c: "calls (snd ?run) = calls w @ take k pipeline_prompts"
    unfolding sends_def by blast
  from k have le: "k \<le> length pipeline_prompts" by (simp add: stops_def)
  have "distinct pipeline_prompts" by (simp add: pipeline_prompts_def)
  then have d: "distinct (take k pipeline_prompts)" by (rule distinct_take)
  have f: "\<forall>j<k. \<forall>e. endpoint (?n + j) (pipeline_prompts ! j) = Inl e \<longrightarrow>
      Suc j = k \<and> fst ?run = Inl e"
    using k by (blast dest: stops_failed_call)
  have q: "(\<forall>w' op. system w' op = None) \<longrightarrow>
      (\<forall>i e. i < length pipeline_prompts
         \<and> (\<forall>j<i. \<exists>reply. endpoint (?n + j) (pipeline_prompts ! j) = Inr reply)
         \<and> endpoint (?n + i) (pipeline_prompts ! i) = Inl e
       \<longrightarrow> k = Suc i \<and> fst ?run = Inl e)"
  proof (intro impI allI)
    fix i e
    assume quiet: "\<forall>w' op. system w' op = None"
      and i: "i < length pipeline_prompts
        \<and> (\<forall>j<i. \<exists>reply. endpoint (?n + j) (pipeline_prompts ! j) = Inr reply)
        \<and> endpoint (?n + i) (pipeline_prompts ! i) = Inl e"
    from i have i1: "i < length pipeline_prompts"
      and i2: "\<forall>j<i. \<exists>reply. endpoint (?n + j) (pipeline_prompts ! j) = Inr reply"
      and i3: "endpoint (?n + i) (pipeline_prompts ! i) = Inl e"
      by blast+
    from k quiet i1 i2 i3 show "k = Suc i \<and> fst ?run = Inl e"
      by (rule stops_at_first_failure)
  qed
  from le c d f q show ?thesis by blast
qed

theorem generation_failure_aborts_run_witness:
  "sample_endpoint 0 Prompt1 = Inr ''resource {}''
   \<and> sample_endpoint 1 Prompt2 = Inr ''resource {}''
   \<and> sample_endpoint 2 VariablesPrompt = Inl (APIError ''quota'')
   \<and> quiet_system fresh_world Print = None
   \<and> fst (run_full_pipeline sample_endpoint sample_load quiet_system fresh_world)
       = Inl (APIError ''quota'')
   \<and> calls (snd (run_full_pipeline sample_endpoint sample_load quiet_system fresh_world))
       = [Prompt1, Prompt2, VariablesPrompt]"
proof -
  let ?run = "run_full_pipeline sample_endpoint sample_load quiet_system fresh_world"
  have c: "calls fresh_world = []" by (simp add: fresh_world_def)
  have quiet: "\<forall>w' op. quiet_system w' op = None" by (simp add: quiet_system_def)
  have h1: "2 < length pipeline_prompts" by (simp add: pipeline_prompts_def)
  have h2: "\<forall>j<2. \<exists>reply.
      sample_endpoint (length (calls fresh_world) + j) (pipeline_prompts ! j) = Inr reply"
    by (simp add: sample_endpoint_def c)
  have h3: "sample_endpoint (length (calls fresh_world) + 2) (pipeline_prompts ! 2)
      = Inl (APIError ''quota'')"
    by (simp add: sample_endpoint_def c)
  from generation_failure_aborts_run [of sample_endpoint sample_load quiet_system fresh_world]
  obtain k where k: "calls (snd ?run) = calls fresh_world @ take k pipeline_prompts"
    and q: "(\<forall>w' op. quiet_system w' op = None) \<longrightarrow>
      (\<forall>i e. i < length pipeline_prompts
         \<and> (\<forall>j<i. \<exists>reply.
               sample_endpoint (length (calls fresh_world) + j) (pipeline_prompts ! j) = Inr reply)
         \<and> sample_endpoint (length (calls fresh_world) + i) (pipeline_prompts ! i) = Inl e
       \<longrightarrow> k = Suc i \<and> fst ?run = Inl e)"
    by blast
  from q quiet h1 h2 h3 have r: "k = Suc 2 \<and> fst ?run = Inl (APIError ''quota'')" by blast
  then have "calls (snd ?run) = [Prompt1, Prompt2, VariablesPrompt]"
    using k c by (simp add: pipeline_prompts_def)
  moreover have "sample_endpoint 0 Prompt1 = Inr ''resource {}''"
    "sample_endpoint 1 Prompt2 = Inr ''resource {}''"
    "sample_endpoint 2 VariablesPrompt = Inl (APIError ''quota'')"
    "quiet_system fresh_world Print = None"
    by (simp_all add: sample_endpoint_def quiet_system_def)
  ultimately show ?thesis using r by simp
qed

text \<open>
  A write that raises ends the run as well: here the manifests step is answered with a
  kind that holds a slash, the system refuses the file named after it, and the run ends
  with that error after four calls; the workflow call, which would have failed, is
  never made.
\<close>

lemma write_failure_example:
  "slash_endpoint 4 WorkflowPrompt = Inl (APIError ''quota'')
   \<and> fst (run_full_pipeline slash_endpoint sample_load strict_system fresh_world)
       = Inl (OSError ''No such file or directory'')
   \<and> calls (snd (run_full_pipeline slash_endpoint sample_load strict_system fresh_world))
       = [Prompt1, Prompt2, VariablesPrompt, ManifestsPrompt]"
  by code_simp


end
